theory Spec2Isabelle
  imports Main "HOL-Library.Word" "HOL-Library.Signed_Division"
begin

unbundle bit_operations_syntax

section \<open>The cache simulator of simcache.cpp\<close>

text \<open>
  The program simulates the E20 processor (16-bit words, eight registers, 2^13 memory
  cells) together with one or two set-associative caches. The model follows the source
  function by function. C++ \<^verbatim>\<open>uint16_t\<close> is \<^typ>\<open>16 word\<close>; C++ \<^verbatim>\<open>int\<close> is
  \<^typ>\<open>int\<close>, with the truncating division and remainder of C++ (\<open>sdiv\<close>, \<open>smod\<close>).
  The configuration numbers are 32-bit values (\<^verbatim>\<open>stoi\<close> returns nothing else); their
  product in the constructor is the one \<^verbatim>\<open>int\<close> operation of the program that can
  leave the 32-bit range, and the model reduces it to 32 bits in two's complement, as the
  compiled multiplication does. The recency counters are taken to stay below 2^31.
  Behaviour that C++ leaves undefined (division by zero, the quotient of the least
  \<^verbatim>\<open>int\<close> by -1, a vector index out of range) and the exception of
  \<^verbatim>\<open>vector::reserve\<close> on a negative count are results of the model: values of
  \<open>error\<close>.
\<close>

datatype error = DivideByZero | DivideOverflow | OutOfRange | LengthError | InvalidCacheConfig

subsection \<open>Cache structures\<close>

record CacheBlock =
  valid :: bool
  tag :: "16 word"
  lru :: int

record CacheRow =
  blocks :: "CacheBlock list"

record Cache =
  rows :: "CacheRow list"
  cacheSize :: int
  associativity :: int
  blocksize :: int
  numRows :: int

text \<open>\<^verbatim>\<open>CacheBlock(int blocksize) : valid(false), tag(0), lru(0)\<close>\<close>

definition CacheBlock_init :: "int \<Rightarrow> CacheBlock" where
  "CacheBlock_init bsize = \<lparr>valid = False, tag = 0, lru = 0\<rparr>"

text \<open>
  \<^verbatim>\<open>CacheRow(int associativity, int blocksize)\<close>: \<^verbatim>\<open>blocks.reserve(associativity)\<close>
  throws \<^verbatim>\<open>std::length_error\<close> when the count is negative (it is converted to an
  unsigned size beyond \<^verbatim>\<open>max_size()\<close>); otherwise \<open>associativity\<close> blocks are appended.
\<close>

definition CacheRow_init :: "int \<Rightarrow> int \<Rightarrow> error + CacheRow" where
  "CacheRow_init assoc bsize =
     (if assoc < 0 then Inl LengthError
      else Inr \<lparr>blocks = replicate (nat assoc) (CacheBlock_init bsize)\<rparr>)"

text \<open>
  \<^verbatim>\<open>Cache(int size, int assoc, int bsize)\<close>: the row count is the truncated quotient
  \<^verbatim>\<open>size / (assoc * bsize)\<close>, computed in the initialiser list with no check; then
  \<^verbatim>\<open>rows.reserve(numRows)\<close> and \<open>numRows\<close> rows are built. The product
  \<^verbatim>\<open>assoc * bsize\<close> is a 32-bit \<^verbatim>\<open>int\<close>: \<open>signed_take_bit 31\<close> reduces the
  mathematical product to that range (65536 * 65536 becomes 0, and the division traps).
  The division also traps when the quotient is not a 32-bit value (the least
  \<^verbatim>\<open>int\<close> divided by -1).
\<close>

definition Cache_init :: "int \<Rightarrow> int \<Rightarrow> int \<Rightarrow> error + Cache" where
  "Cache_init sz assoc bsize =
     (let p = signed_take_bit 31 (assoc * bsize) in
      if p = 0 then Inl DivideByZero
      else
        let n = sz sdiv p in
        if n < - (2 ^ 31) \<or> 2 ^ 31 \<le> n then Inl DivideOverflow
        else if n < 0 then Inl LengthError
        else if n = 0 then
          Inr \<lparr>rows = [], cacheSize = sz, associativity = assoc, blocksize = bsize, numRows = n\<rparr>
        else
          (case CacheRow_init assoc bsize of
             Inl e \<Rightarrow> Inl e
           | Inr r \<Rightarrow>
               Inr \<lparr>rows = replicate (nat n) r, cacheSize = sz, associativity = assoc,
                    blocksize = bsize, numRows = n\<rparr>))"

subsection \<open>loadWord\<close>

text \<open>\<^verbatim>\<open>row.blocks[i].lru++\<close>\<close>

definition lru_incr :: "nat \<Rightarrow> CacheBlock list \<Rightarrow> CacheBlock list" where
  "lru_incr i bs = bs[i := (bs ! i)\<lparr>lru := lru (bs ! i) + 1\<rparr>]"

text \<open>
  The inner loop of the hit branch:
  \<^verbatim>\<open>for (int j = 0; j < associativity; ++j) { if (j != i) row.blocks[j].lru++; }\<close>
\<close>

function loadWord_age :: "nat \<Rightarrow> nat \<Rightarrow> nat \<Rightarrow> CacheBlock list \<Rightarrow> CacheBlock list" where
  "loadWord_age n i j bs =
     (if j < n then loadWord_age n i (Suc j) (if j \<noteq> i then lru_incr j bs else bs)
      else bs)"
  by pat_completeness auto
termination
  by (relation "measure (\<lambda>(n, i, j, bs). n - j)") auto

text \<open>
  The first loop of \<^verbatim>\<open>loadWord\<close>, from index \<open>i\<close>: the line is aged, then tested;
  on a match its counter is reset, the inner loop runs and 1 (hit) is returned.
  The result 0 means that the loop ran to its end.
\<close>

function loadWord_hit :: "16 word \<Rightarrow> nat \<Rightarrow> nat \<Rightarrow> CacheBlock list \<Rightarrow> int \<times> CacheBlock list" where
  "loadWord_hit tg n i bs =
     (if i < n then
        (let bs1 = lru_incr i bs in
         if valid (bs1 ! i) \<and> tag (bs1 ! i) = tg
         then (1, loadWord_age n i 0 (bs1[i := (bs1 ! i)\<lparr>lru := 0\<rparr>]))
         else loadWord_hit tg n (Suc i) bs1)
      else (0, bs))"
  by pat_completeness auto
termination
  by (relation "measure (\<lambda>(tg, n, i, bs). n - i)") auto

text \<open>
  The second loop of \<^verbatim>\<open>loadWord\<close>: the index of the first line whose counter is
  strictly above every earlier one (\<open>lruIndex\<close> and \<open>maxLRU\<close> start at -1).
\<close>

function loadWord_victim :: "nat \<Rightarrow> nat \<Rightarrow> CacheBlock list \<Rightarrow> int \<Rightarrow> int \<Rightarrow> int" where
  "loadWord_victim n i bs lruIndex maxLRU =
     (if i < n then
        (if lru (bs ! i) > maxLRU then loadWord_victim n (Suc i) bs (int i) (lru (bs ! i))
         else loadWord_victim n (Suc i) bs lruIndex maxLRU)
      else lruIndex)"
  by pat_completeness auto
termination
  by (relation "measure (\<lambda>(n, i, bs, lruIndex, maxLRU). n - i)") auto

text \<open>
  \<^verbatim>\<open>int loadWord(uint16_t address, int &rowIndex)\<close>: the result is the return value
  (1 hit, 0 miss), the row index written through the reference, and the cache afterwards.
  \<^verbatim>\<open>address\<close> is promoted to \<^verbatim>\<open>int\<close> for the divisions; the tag is converted back to
  \<^verbatim>\<open>uint16_t\<close>. Every index below \<open>associativity\<close> is read in the addressed row.
\<close>

definition loadWord :: "Cache \<Rightarrow> 16 word \<Rightarrow> error + (int \<times> int \<times> Cache)" where
  "loadWord c address =
     (if blocksize c = 0 \<or> numRows c = 0 then Inl DivideByZero
      else
        let tg = (word_of_int ((uint address sdiv blocksize c) sdiv numRows c) :: 16 word);
            rowIndex = (uint address sdiv blocksize c) smod numRows c
        in
        if rowIndex < 0 \<or> int (length (rows c)) \<le> rowIndex then Inl OutOfRange
        else
          let row = rows c ! nat rowIndex;
              n = nat (associativity c)
          in
          if length (blocks row) < n then Inl OutOfRange
          else
            (case loadWord_hit tg n 0 (blocks row) of
               (r, bs) \<Rightarrow>
                 if r = 1 then
                   Inr (1, rowIndex, c\<lparr>rows := (rows c)[nat rowIndex := row\<lparr>blocks := bs\<rparr>]\<rparr>)
                 else
                   let lruIndex = loadWord_victim n 0 bs (- 1) (- 1) in
                   if lruIndex < 0 then Inl OutOfRange
                   else
                     Inr (0, rowIndex,
                          c\<lparr>rows := (rows c)[nat rowIndex :=
                               row\<lparr>blocks := bs[nat lruIndex :=
                                 (bs ! nat lruIndex)\<lparr>valid := True, tag := tg, lru := 0\<rparr>]\<rparr>]\<rparr>)))"

subsection \<open>storeWord\<close>

text \<open>
  The loop of \<^verbatim>\<open>storeWord\<close>: the candidate is replaced at every invalid line and at
  every line whose counter is above \<open>maxLRU\<close>; the counter is read before it is
  incremented.
\<close>

function storeWord_scan :: "nat \<Rightarrow> nat \<Rightarrow> CacheBlock list \<Rightarrow> int \<Rightarrow> int \<Rightarrow> int \<times> CacheBlock list" where
  "storeWord_scan n i bs lruIndex maxLRU =
     (if i < n then
        (if \<not> valid (bs ! i) \<or> lru (bs ! i) > maxLRU
         then storeWord_scan n (Suc i) (lru_incr i bs) (int i) (lru (bs ! i))
         else storeWord_scan n (Suc i) (lru_incr i bs) lruIndex maxLRU)
      else (lruIndex, bs))"
  by pat_completeness auto
termination
  by (relation "measure (\<lambda>(n, i, bs, lruIndex, maxLRU). n - i)") auto

text \<open>
  \<^verbatim>\<open>void storeWord(uint16_t address, int &rowIndex)\<close>: the result is the row index and
  the cache afterwards.
\<close>

definition storeWord :: "Cache \<Rightarrow> 16 word \<Rightarrow> error + (int \<times> Cache)" where
  "storeWord c address =
     (if blocksize c = 0 \<or> numRows c = 0 then Inl DivideByZero
      else
        let tg = (word_of_int ((uint address sdiv blocksize c) sdiv numRows c) :: 16 word);
            rowIndex = (uint address sdiv blocksize c) smod numRows c
        in
        if rowIndex < 0 \<or> int (length (rows c)) \<le> rowIndex then Inl OutOfRange
        else
          let row = rows c ! nat rowIndex;
              n = nat (associativity c)
          in
          if length (blocks row) < n then Inl OutOfRange
          else
            (case storeWord_scan n 0 (blocks row) (- 1) (- 1) of
               (lruIndex, bs) \<Rightarrow>
                 if lruIndex < 0 then Inl OutOfRange
                 else
                   Inr (rowIndex,
                        c\<lparr>rows := (rows c)[nat rowIndex :=
                             row\<lparr>blocks := bs[nat lruIndex :=
                               (bs ! nat lruIndex)\<lparr>valid := True, tag := tg, lru := 0\<rparr>]\<rparr>]\<rparr>)))"

subsection \<open>Output\<close>

text \<open>
  The two printing functions write one line each to standard output. The model keeps the
  values printed, not the column layout.
\<close>

datatype output_line =
  CacheConfig string int int int int
| LogEntry string string int int int

definition print_cache_config :: "string \<Rightarrow> int \<Rightarrow> int \<Rightarrow> int \<Rightarrow> int \<Rightarrow> output_line" where
  "print_cache_config cache_name sz assoc bsize num_rows =
     CacheConfig cache_name sz assoc bsize num_rows"

definition print_log_entry :: "string \<Rightarrow> string \<Rightarrow> int \<Rightarrow> int \<Rightarrow> int \<Rightarrow> output_line" where
  "print_log_entry cache_name status pc_arg addr row = LogEntry cache_name status pc_arg addr row"

subsection \<open>Machine state and instruction execution\<close>

text \<open>
  The variables of \<^verbatim>\<open>main\<close> that the execution functions receive by reference: the
  program counter, the eight registers, the 8192 memory cells, the L1 cache, the optional
  L2 cache (the null pointer is \<open>None\<close>), the halt flag, and the lines printed so far.
\<close>

record Machine =
  pc :: "16 word"
  regs :: "16 word list"
  memory :: "16 word list"
  l1Cache :: Cache
  l2Cache :: "Cache option"
  isHalt :: bool
  out :: "output_line list"

text \<open>
  \<^verbatim>\<open>execute_instruction\<close>: add, sub, or, and, slt and jr, selected by the low four bits.
  After the switch, register 0 is cleared and the program counter is incremented.
\<close>

definition execute_instruction :: "16 word \<Rightarrow> Machine \<Rightarrow> Machine" where
  "execute_instruction instr s =
     (let functionCode = instr AND 0xF;
          regSrcA = unat (drop_bit 10 instr AND 0x7);
          regSrcB = unat (drop_bit 7 instr AND 0x7);
          regDst = unat (drop_bit 4 instr AND 0x7);
          s1 =
            (if functionCode = 0 then
               s\<lparr>regs := (regs s)[regDst := regs s ! regSrcA + regs s ! regSrcB]\<rparr>
             else if functionCode = 1 then
               s\<lparr>regs := (regs s)[regDst := regs s ! regSrcA - regs s ! regSrcB]\<rparr>
             else if functionCode = 2 then
               s\<lparr>regs := (regs s)[regDst := regs s ! regSrcA OR regs s ! regSrcB]\<rparr>
             else if functionCode = 3 then
               s\<lparr>regs := (regs s)[regDst := regs s ! regSrcA AND regs s ! regSrcB]\<rparr>
             else if functionCode = 4 then
               s\<lparr>regs := (regs s)[regDst := (if regs s ! regSrcA < regs s ! regSrcB then 1 else 0)]\<rparr>
             else if functionCode = 8 then
               s\<lparr>pc := regs s ! unat (drop_bit 10 instr AND 0x7) - 1\<rparr>
             else s)
      in s1\<lparr>regs := (regs s1)[0 := 0], pc := pc s1 + 1\<rparr>)"

text \<open>
  \<^verbatim>\<open>execute_imm_instruction\<close>: slti, lw, sw, jeq and addi. The immediate is
  sign-extended to 16 bits before the switch, for every opcode. The cases of lw and sw
  declare \<open>regAddr\<close>, \<open>imm\<close>, \<open>address\<close>, \<open>loadAddr\<close> and \<open>storeAddr\<close> again, by the
  same expressions as \<open>regSrc\<close>, \<open>imm\<close> and \<open>address\<close> of the function's head, so the
  model uses the latter. After the switch, register 0 is cleared.
\<close>

definition execute_imm_instruction :: "16 word \<Rightarrow> Machine \<Rightarrow> error + Machine" where
  "execute_imm_instruction instr s =
     (let opcode = drop_bit 13 instr AND 0x7;
          regSrc = unat (drop_bit 10 instr AND 0x7);
          regDst = unat (drop_bit 7 instr AND 0x7);
          imm0 = instr AND 0x7F;
          imm = (if imm0 AND 0x40 \<noteq> 0 then imm0 OR 0xFF80 else imm0);
          address = (regs s ! regSrc + imm) AND 0x1FFF;
          r =
            (if opcode = 7 then
               Inr (s\<lparr>regs := (regs s)[regDst := (if unat (regs s ! regSrc) < unat imm then 1 else 0)],
                      pc := pc s + 1\<rparr>)
             else if opcode = 4 then
               (case
                  (case loadWord (l1Cache s) address of
                     Inl e \<Rightarrow> Inl e
                   | Inr (r1, l1Row, l1') \<Rightarrow>
                       (let hit = (r1 \<noteq> 0);
                            out1 = out s @ [print_log_entry ''L1'' (if hit then ''HIT'' else ''MISS'')
                                              (uint (pc s)) (uint address) l1Row]
                        in
                        (case (if \<not> hit then l2Cache s else None) of
                           None \<Rightarrow> Inr (hit, l1', l2Cache s, out1)
                         | Some l2 \<Rightarrow>
                             (case loadWord l2 address of
                                Inl e \<Rightarrow> Inl e
                              | Inr (r2, l2Row, l2') \<Rightarrow>
                                  Inr (r2 \<noteq> 0, l1', Some l2',
                                       out1 @ [print_log_entry ''L2'' (if r2 \<noteq> 0 then ''HIT'' else ''MISS'')
                                                 (uint (pc s)) (uint address) l2Row])))))
                of
                  Inl e \<Rightarrow> Inl e
                | Inr (hit, l1', l2', out') \<Rightarrow>
                    (let loadAddr = (regs s ! regSrc + imm) AND 8191 in
                     Inr (s\<lparr>regs := (if \<not> hit \<and> unat loadAddr < 2 ^ 13
                                      then (regs s)[regDst := memory s ! unat loadAddr]
                                      else regs s),
                            pc := pc s + 1, l1Cache := l1', l2Cache := l2', out := out'\<rparr>)))
             else if opcode = 5 then
               (let storeAddr = (regs s ! regSrc + imm) AND 8191;
                    memory' = (if unat storeAddr < 2 ^ 13
                               then (memory s)[unat storeAddr := regs s ! regDst]
                               else memory s)
                in
                (case storeWord (l1Cache s) address of
                   Inl e \<Rightarrow> Inl e
                 | Inr (l1Row, l1') \<Rightarrow>
                     (let out1 = out s @ [print_log_entry ''L1'' ''SW'' (uint (pc s)) (uint address) l1Row]
                      in
                      (case l2Cache s of
                         None \<Rightarrow>
                           Inr (s\<lparr>pc := pc s + 1, memory := memory', l1Cache := l1', out := out1\<rparr>)
                       | Some l2 \<Rightarrow>
                           (case storeWord l2 address of
                              Inl e \<Rightarrow> Inl e
                            | Inr (l2Row, l2') \<Rightarrow>
                                Inr (s\<lparr>pc := pc s + 1, memory := memory', l1Cache := l1',
                                       l2Cache := Some l2',
                                       out := out1 @ [print_log_entry ''L2'' ''SW'' (uint (pc s))
                                                        (uint address) l2Row]\<rparr>))))))
             else if opcode = 6 then
               (if regs s ! regSrc = regs s ! regDst
                then Inr (s\<lparr>pc := pc s + 1 + imm\<rparr>)
                else Inr (s\<lparr>pc := pc s + 1\<rparr>))
             else if opcode = 1 then
               Inr (s\<lparr>regs := (regs s)[regDst := regs s ! regSrc + imm], pc := pc s + 1\<rparr>)
             else
               Inr (s\<lparr>pc := pc s + 1\<rparr>))
      in
      (case r of
         Inl e \<Rightarrow> Inl e
       | Inr s1 \<Rightarrow> Inr (s1\<lparr>regs := (regs s1)[0 := 0]\<rparr>)))"

text \<open>\<^verbatim>\<open>execute_control_instruction\<close>: j and jal. After the switch, register 0 is cleared.\<close>

definition execute_control_instruction :: "16 word \<Rightarrow> Machine \<Rightarrow> Machine" where
  "execute_control_instruction instr s =
     (let opcode = drop_bit 13 instr AND 0x7;
          imm = instr AND 0x1FFF;
          s1 =
            (if opcode = 2 then
               (if imm = pc s then s\<lparr>isHalt := True\<rparr> else s\<lparr>pc := imm\<rparr>)
             else if opcode = 3 then
               s\<lparr>regs := (regs s)[7 := pc s + 1], pc := imm\<rparr>
             else s)
      in s1\<lparr>regs := (regs s1)[0 := 0]\<rparr>)"

subsection \<open>The simulation loop of main\<close>

text \<open>
  The body of \<^verbatim>\<open>while (!isHalt)\<close>, the same in both branches of \<^verbatim>\<open>main\<close>: fetch at
  \<^verbatim>\<open>pc & 8191\<close>, halt on a jump to the current \<open>pc\<close>, otherwise dispatch on the opcode.
\<close>

definition main_loop_body :: "Machine \<Rightarrow> error + Machine" where
  "main_loop_body s =
     (let instr = memory s ! unat (pc s AND 8191);
          imm = instr AND 0x1FFF;
          opcode = drop_bit 13 instr AND 0x7
      in
      if opcode = 2 \<and> imm = pc s then Inr (s\<lparr>isHalt := True\<rparr>)
      else if opcode = 0 then Inr (execute_instruction instr s)
      else if opcode = 7 \<or> opcode = 1 \<or> opcode = 4 \<or> opcode = 5 \<or> opcode = 6 then
        execute_imm_instruction instr s
      else if opcode = 2 \<or> opcode = 3 then Inr (execute_control_instruction instr s)
      else Inr s)"

text \<open>
  The loop itself. It has no bound: a program without a jump to itself runs forever,
  which is the value \<open>None\<close>. An error of the body ends the run.
\<close>

partial_function (option) main_loop :: "Machine \<Rightarrow> (error + Machine) option" where
  "main_loop s =
     (if isHalt s then Some (Inr s)
      else
        (case main_loop_body s of
           Inl e \<Rightarrow> Some (Inl e)
         | Inr s' \<Rightarrow> main_loop s'))"

declare main_loop.simps [code]

text \<open>
  The state before the loop: \<open>pc\<close> 0, registers 0, the memory image that
  \<^verbatim>\<open>load_machine_code\<close> has filled (program words from address 0, zero elsewhere),
  and the configuration lines already printed.
\<close>

definition initial_machine :: "Cache \<Rightarrow> Cache option \<Rightarrow> 16 word list \<Rightarrow> output_line list \<Rightarrow> Machine" where
  "initial_machine l1 l2 mem printed =
     \<lparr>pc = 0, regs = replicate 8 0, memory = mem, l1Cache = l1, l2Cache = l2,
      isHalt = False, out = printed\<rparr>"

text \<open>
  The part of \<^verbatim>\<open>main\<close> after the configuration string has been split into integers:
  three integers build one cache, six build two, any other count prints
  \<^verbatim>\<open>Invalid cache config\<close> and returns 1. The caches are constructed before their
  configuration lines are printed and before the loop starts. The list that \<^verbatim>\<open>main\<close>
  builds is never empty (the field after the last comma is always appended); without
  \<^verbatim>\<open>--cache\<close> \<^verbatim>\<open>main\<close> simulates nothing and returns 0, which is not part of the
  model.
\<close>

definition main_cache :: "int list \<Rightarrow> 16 word list \<Rightarrow> (error + Machine) option" where
  "main_cache parts mem =
     (if length parts = 3 then
        (case Cache_init (parts ! 0) (parts ! 1) (parts ! 2) of
           Inl e \<Rightarrow> Some (Inl e)
         | Inr l1 \<Rightarrow>
             main_loop (initial_machine l1 None mem
               [print_cache_config ''L1'' (parts ! 0) (parts ! 1) (parts ! 2) (numRows l1)]))
      else if length parts = 6 then
        (case Cache_init (parts ! 0) (parts ! 1) (parts ! 2) of
           Inl e \<Rightarrow> Some (Inl e)
         | Inr l1 \<Rightarrow>
             (case Cache_init (parts ! 3) (parts ! 4) (parts ! 5) of
                Inl e \<Rightarrow> Some (Inl e)
              | Inr l2 \<Rightarrow>
                  main_loop (initial_machine l1 (Some l2) mem
                    [print_cache_config ''L1'' (parts ! 0) (parts ! 1) (parts ! 2) (numRows l1),
                     print_cache_config ''L2'' (parts ! 3) (parts ! 4) (parts ! 5) (numRows l2)])))
      else Some (Inl InvalidCacheConfig))"

subsection \<open>Reachable cache states\<close>

text \<open>
  The cache states that a run can meet: a cache built by the constructor from positive
  associativity and block size with at least one row (the size is an \<^verbatim>\<open>int\<close>, so it
  is below 2^31), then changed only by \<^verbatim>\<open>loadWord\<close> and \<^verbatim>\<open>storeWord\<close>.
\<close>

inductive reachable :: "Cache \<Rightarrow> bool" where
  constructed:
    "0 < assoc \<Longrightarrow> 0 < bsize \<Longrightarrow> assoc * bsize \<le> sz \<Longrightarrow> sz < 2 ^ 31 \<Longrightarrow>
     Cache_init sz assoc bsize = Inr c \<Longrightarrow> reachable c"
| loaded: "reachable c \<Longrightarrow> loadWord c a = Inr (r, row, c') \<Longrightarrow> reachable c'"
| stored: "reachable c \<Longrightarrow> storeWord c a = Inr (row, c') \<Longrightarrow> reachable c'"

text \<open>
  The invariant of one row: no counter is negative, and a valid line that stands after
  an invalid line is not older than it (an invalid line has never been reset).
\<close>

definition row_ok :: "CacheBlock list \<Rightarrow> bool" where
  "row_ok bs \<longleftrightarrow>
     (\<forall>k<length bs. 0 \<le> lru (bs ! k)) \<and>
     (\<forall>k m. k < m \<and> m < length bs \<and> \<not> valid (bs ! k) \<and> valid (bs ! m)
        \<longrightarrow> lru (bs ! m) \<le> lru (bs ! k))"

text \<open>The invariant of a cache: the shape the constructor builds, and every row in order.\<close>

definition wf_cache :: "Cache \<Rightarrow> bool" where
  "wf_cache c \<longleftrightarrow>
     0 < blocksize c \<and> 0 < numRows c \<and> 0 < associativity c \<and>
     length (rows c) = nat (numRows c) \<and>
     (\<forall>r \<in> set (rows c). length (blocks r) = nat (associativity c) \<and> row_ok (blocks r))"

text \<open>
  The two numbers that \<^verbatim>\<open>loadWord\<close> and \<^verbatim>\<open>storeWord\<close> compute from an address,
  named for the statements below: \<^verbatim>\<open>(address / blocksize) / numRows\<close> as
  \<^verbatim>\<open>uint16_t\<close>, and \<^verbatim>\<open>(address / blocksize) % numRows\<close>.
\<close>

definition tag_of :: "Cache \<Rightarrow> 16 word \<Rightarrow> 16 word" where
  "tag_of c address = word_of_int ((uint address sdiv blocksize c) sdiv numRows c)"

definition row_of :: "Cache \<Rightarrow> 16 word \<Rightarrow> int" where
  "row_of c address = (uint address sdiv blocksize c) smod numRows c"

subsection \<open>Example inputs\<close>

text \<open>
  The caches that \<^verbatim>\<open>--cache 4,1,1\<close> and \<^verbatim>\<open>--cache 4,1,1,8,2,1\<close> build, a two-way
  cache of one row (\<^verbatim>\<open>--cache 2,2,1\<close>), and a program of four words:
  \<^verbatim>\<open>addi $1,$0,42\<close>; \<^verbatim>\<open>sw $1,50($0)\<close>; \<^verbatim>\<open>lw $3,50($0)\<close>; \<^verbatim>\<open>j 3\<close> (halt).
\<close>

definition example_l1 :: Cache where
  "example_l1 =
     \<lparr>rows = replicate 4 \<lparr>blocks = [\<lparr>valid = False, tag = 0, lru = 0\<rparr>]\<rparr>,
      cacheSize = 4, associativity = 1, blocksize = 1, numRows = 4\<rparr>"

definition example_l2 :: Cache where
  "example_l2 =
     \<lparr>rows = replicate 4 \<lparr>blocks = [\<lparr>valid = False, tag = 0, lru = 0\<rparr>,
                                    \<lparr>valid = False, tag = 0, lru = 0\<rparr>]\<rparr>,
      cacheSize = 8, associativity = 2, blocksize = 1, numRows = 4\<rparr>"

definition example_two_way :: Cache where
  "example_two_way =
     \<lparr>rows = [\<lparr>blocks = [\<lparr>valid = False, tag = 0, lru = 0\<rparr>,
                         \<lparr>valid = False, tag = 0, lru = 0\<rparr>]\<rparr>],
      cacheSize = 2, associativity = 2, blocksize = 1, numRows = 1\<rparr>"

definition example_memory :: "16 word list" where
  "example_memory = [0x20AA, 0xA0B2, 0x81B2, 0x4003] @ replicate 8188 0"

definition example_machine :: Machine where
  "example_machine =
     \<lparr>pc = 0, regs = [0, 100, 0, 7, 0xFFFF, 0, 0, 0], memory = example_memory,
      l1Cache = example_l1, l2Cache = None, isHalt = False, out = []\<rparr>"

section \<open>Properties of the loops\<close>

declare loadWord_age.simps [simp del] loadWord_hit.simps [simp del]
  loadWord_victim.simps [simp del] storeWord_scan.simps [simp del]

lemma length_lru_incr [simp]: "length (lru_incr i bs) = length bs"
  by (simp add: lru_incr_def)

lemma nth_lru_incr:
  "k < length bs \<Longrightarrow>
   lru_incr i bs ! k = (if k = i then (bs ! k)\<lparr>lru := lru (bs ! k) + 1\<rparr> else bs ! k)"
  by (simp add: lru_incr_def nth_list_update)

lemma length_storeWord_scan [simp]:
  "length (snd (storeWord_scan n i bs li mx)) = length bs"
proof (induction n i bs li mx rule: storeWord_scan.induct)
  case (1 n i bs li mx)
  then show ?case
    by (subst storeWord_scan.simps) simp
qed

lemma nth_storeWord_scan:
  "k < length bs \<Longrightarrow>
   snd (storeWord_scan n i bs li mx) ! k =
     (if i \<le> k \<and> k < n then (bs ! k)\<lparr>lru := lru (bs ! k) + 1\<rparr> else bs ! k)"
proof (induction n i bs li mx rule: storeWord_scan.induct)
  case (1 n i bs li mx)
  show ?case
  proof (cases "i < n")
    case False
    then show ?thesis by (subst storeWord_scan.simps) simp
  next
    case True
    with "1.IH" "1.prems" show ?thesis
      by (subst storeWord_scan.simps) (auto simp: nth_lru_incr)
  qed
qed

lemma length_loadWord_age [simp]: "length (loadWord_age n i j bs) = length bs"
proof (induction n i j bs rule: loadWord_age.induct)
  case (1 n i j bs)
  then show ?case
    by (subst loadWord_age.simps) simp
qed

lemma nth_loadWord_age:
  "k < length bs \<Longrightarrow>
   loadWord_age n i j bs ! k =
     (if j \<le> k \<and> k < n \<and> k \<noteq> i then (bs ! k)\<lparr>lru := lru (bs ! k) + 1\<rparr> else bs ! k)"
proof (induction n i j bs rule: loadWord_age.induct)
  case (1 n i j bs)
  show ?case
  proof (cases "j < n")
    case False
    then show ?thesis by (subst loadWord_age.simps) simp
  next
    case True
    with "1.IH" "1.prems" show ?thesis
      by (subst loadWord_age.simps) (auto simp: nth_lru_incr)
  qed
qed

lemma length_loadWord_hit [simp]: "length (snd (loadWord_hit tg n i bs)) = length bs"
proof (induction tg n i bs rule: loadWord_hit.induct)
  case (1 tg n i bs)
  then show ?case
    by (subst loadWord_hit.simps) (simp add: Let_def)
qed

lemma fst_loadWord_hit: "fst (loadWord_hit tg n i bs) = 0 \<or> fst (loadWord_hit tg n i bs) = 1"
proof (induction tg n i bs rule: loadWord_hit.induct)
  case (1 tg n i bs)
  then show ?case
    by (subst (1 2) loadWord_hit.simps) (simp add: Let_def)
qed


lemma valid_lru_incr [simp]: "valid (lru_incr i bs ! k) = valid (bs ! k)"
  by (cases "k = i"; cases "i < length bs") (simp_all add: lru_incr_def list_update_beyond)

lemma tag_lru_incr [simp]: "tag (lru_incr i bs ! k) = tag (bs ! k)"
  by (cases "k = i"; cases "i < length bs") (simp_all add: lru_incr_def list_update_beyond)

lemma loadWord_hit_end: "\<not> i < n \<Longrightarrow> loadWord_hit tg n i bs = (0, bs)"
  by (subst loadWord_hit.simps) simp

lemma loadWord_hit_match:
  "i < n \<Longrightarrow> valid (bs ! i) \<Longrightarrow> tag (bs ! i) = tg \<Longrightarrow>
   loadWord_hit tg n i bs =
     (1, loadWord_age n i 0 ((lru_incr i bs)[i := (lru_incr i bs ! i)\<lparr>lru := 0\<rparr>]))"
  by (subst loadWord_hit.simps) (simp add: Let_def)

lemma loadWord_hit_next:
  "i < n \<Longrightarrow> \<not> (valid (bs ! i) \<and> tag (bs ! i) = tg) \<Longrightarrow>
   loadWord_hit tg n i bs = loadWord_hit tg n (Suc i) (lru_incr i bs)"
  by (subst loadWord_hit.simps) (auto simp: Let_def)

lemma loadWord_hit_miss:
  "n \<le> length bs \<Longrightarrow> \<forall>k. i \<le> k \<and> k < n \<longrightarrow> \<not> (valid (bs ! k) \<and> tag (bs ! k) = tg) \<Longrightarrow>
   fst (loadWord_hit tg n i bs) = 0 \<and>
   (\<forall>k<length bs. snd (loadWord_hit tg n i bs) ! k =
      (if i \<le> k \<and> k < n then (bs ! k)\<lparr>lru := lru (bs ! k) + 1\<rparr> else bs ! k))"
proof (induction tg n i bs rule: loadWord_hit.induct)
  case (1 tg n i bs)
  show ?case
  proof (cases "i < n")
    case False
    then show ?thesis by (simp add: loadWord_hit_end)
  next
    case True
    let ?bs1 = "lru_incr i bs"
    from True "1.prems"(2) have m: "\<not> (valid (bs ! i) \<and> tag (bs ! i) = tg)" by simp
    then have m1: "\<not> (valid (?bs1 ! i) \<and> tag (?bs1 ! i) = tg)" by simp
    have eq: "loadWord_hit tg n i bs = loadWord_hit tg n (Suc i) ?bs1"
      using True m by (rule loadWord_hit_next)
    have "fst (loadWord_hit tg n (Suc i) ?bs1) = 0 \<and>
      (\<forall>k<length ?bs1. snd (loadWord_hit tg n (Suc i) ?bs1) ! k =
         (if Suc i \<le> k \<and> k < n then (?bs1 ! k)\<lparr>lru := lru (?bs1 ! k) + 1\<rparr> else ?bs1 ! k))"
      using "1.prems" by (intro "1.IH"[OF True refl m1]) auto
    then show ?thesis
      unfolding eq using True by (auto simp: nth_lru_incr)
  qed
qed

lemma loadWord_hit_hit:
  "n \<le> length bs \<Longrightarrow> i \<le> h \<Longrightarrow> h < n \<Longrightarrow> valid (bs ! h) \<Longrightarrow> tag (bs ! h) = tg \<Longrightarrow>
   \<forall>k. i \<le> k \<and> k < h \<longrightarrow> \<not> (valid (bs ! k) \<and> tag (bs ! k) = tg) \<Longrightarrow>
   fst (loadWord_hit tg n i bs) = 1 \<and>
   (\<forall>k<length bs. snd (loadWord_hit tg n i bs) ! k =
      (if k = h then (bs ! k)\<lparr>lru := 0\<rparr>
       else if i \<le> k \<and> k < h then (bs ! k)\<lparr>lru := lru (bs ! k) + 2\<rparr>
       else if k < n then (bs ! k)\<lparr>lru := lru (bs ! k) + 1\<rparr>
       else bs ! k))"
proof (induction tg n i bs rule: loadWord_hit.induct)
  case (1 tg n i bs)
  from "1.prems" have in': "i < n" by simp
  let ?bs1 = "lru_incr i bs"
  show ?case
  proof (cases "i = h")
    case True
    with "1.prems" in' show ?thesis
      by (simp add: loadWord_hit_match nth_loadWord_age nth_list_update nth_lru_incr)
  next
    case False
    with "1.prems" have ih: "i < h" by simp
    with "1.prems" have m: "\<not> (valid (bs ! i) \<and> tag (bs ! i) = tg)" by simp
    then have m1: "\<not> (valid (?bs1 ! i) \<and> tag (?bs1 ! i) = tg)" by simp
    have eq: "loadWord_hit tg n i bs = loadWord_hit tg n (Suc i) ?bs1"
      using in' m by (rule loadWord_hit_next)
    have "fst (loadWord_hit tg n (Suc i) ?bs1) = 1 \<and>
      (\<forall>k<length ?bs1. snd (loadWord_hit tg n (Suc i) ?bs1) ! k =
        (if k = h then (?bs1 ! k)\<lparr>lru := 0\<rparr>
         else if Suc i \<le> k \<and> k < h then (?bs1 ! k)\<lparr>lru := lru (?bs1 ! k) + 2\<rparr>
         else if k < n then (?bs1 ! k)\<lparr>lru := lru (?bs1 ! k) + 1\<rparr>
         else ?bs1 ! k))"
      using "1.prems" ih by (intro "1.IH"[OF in' refl m1]) auto
    then show ?thesis
      unfolding eq using ih "1.prems"(3) by (auto simp: nth_lru_incr)
  qed
qed


subsection \<open>storeWord_scan\<close>

lemma storeWord_scan_end: "\<not> i < n \<Longrightarrow> storeWord_scan n i bs li mx = (li, bs)"
  by (subst storeWord_scan.simps) simp

lemma storeWord_scan_take:
  "i < n \<Longrightarrow> \<not> valid (bs ! i) \<or> mx < lru (bs ! i) \<Longrightarrow>
   storeWord_scan n i bs li mx = storeWord_scan n (Suc i) (lru_incr i bs) (int i) (lru (bs ! i))"
  by (subst storeWord_scan.simps) auto

lemma storeWord_scan_skip:
  "i < n \<Longrightarrow> valid (bs ! i) \<Longrightarrow> lru (bs ! i) \<le> mx \<Longrightarrow>
   storeWord_scan n i bs li mx = storeWord_scan n (Suc i) (lru_incr i bs) li mx"
  by (subst storeWord_scan.simps) auto

lemma nth_lru_incr_other [simp]: "k \<noteq> i \<Longrightarrow> lru_incr i bs ! k = bs ! k"
  by (simp add: lru_incr_def)





lemma storeWord_scan_upper:
  "li < int n \<Longrightarrow> fst (storeWord_scan n i bs li mx) < int n"
proof (induction n i bs li mx rule: storeWord_scan.induct)
  case (1 n i bs li mx)
  show ?case
  proof (cases "i < n")
    case False
    with "1.prems" show ?thesis by (simp add: storeWord_scan_end)
  next
    case True
    show ?thesis
    proof (cases "\<not> valid (bs ! i) \<or> mx < lru (bs ! i)")
      case c: True
      from "1.IH"(1)[OF True c] True show ?thesis
        by (simp add: storeWord_scan_take[OF True c])
    next
      case c: False
      then have eq: "storeWord_scan n i bs li mx = storeWord_scan n (Suc i) (lru_incr i bs) li mx"
        using True by (intro storeWord_scan_skip) auto
      from "1.IH"(2)[OF True c "1.prems"] show ?thesis
        unfolding eq .
    qed
  qed
qed

lemma storeWord_scan_lower:
  "0 \<le> li \<or> (i < n \<and> (\<not> valid (bs ! i) \<or> mx < lru (bs ! i))) \<Longrightarrow>
   0 \<le> fst (storeWord_scan n i bs li mx)"
proof (induction n i bs li mx rule: storeWord_scan.induct)
  case (1 n i bs li mx)
  show ?case
  proof (cases "i < n")
    case False
    with "1.prems" show ?thesis by (simp add: storeWord_scan_end)
  next
    case True
    show ?thesis
    proof (cases "\<not> valid (bs ! i) \<or> mx < lru (bs ! i)")
      case c: True
      have "0 \<le> fst (storeWord_scan n (Suc i) (lru_incr i bs) (int i) (lru (bs ! i)))"
        by (rule "1.IH"(1)[OF True c]) simp
      then show ?thesis
        by (simp add: storeWord_scan_take[OF True c])
    next
      case c: False
      then have eq: "storeWord_scan n i bs li mx = storeWord_scan n (Suc i) (lru_incr i bs) li mx"
        using True by (intro storeWord_scan_skip) auto
      from c "1.prems" have "0 \<le> li" by auto
      then have "0 \<le> fst (storeWord_scan n (Suc i) (lru_incr i bs) li mx)"
        by (intro "1.IH"(2)[OF True c]) simp
      then show ?thesis
        unfolding eq .
    qed
  qed
qed

lemma snd_storeWord_scan:
  "snd (storeWord_scan (length bs) 0 bs li mx) = map (\<lambda>b. b\<lparr>lru := lru b + 1\<rparr>) bs"
  by (rule nth_equalityI) (simp_all add: nth_storeWord_scan)

subsection \<open>loadWord_victim\<close>

lemma loadWord_victim_end: "\<not> i < n \<Longrightarrow> loadWord_victim n i bs li mx = li"
  by (subst loadWord_victim.simps) simp

lemma loadWord_victim_take:
  "i < n \<Longrightarrow> mx < lru (bs ! i) \<Longrightarrow>
   loadWord_victim n i bs li mx = loadWord_victim n (Suc i) bs (int i) (lru (bs ! i))"
  by (subst loadWord_victim.simps) simp

lemma loadWord_victim_skip:
  "i < n \<Longrightarrow> \<not> mx < lru (bs ! i) \<Longrightarrow>
   loadWord_victim n i bs li mx = loadWord_victim n (Suc i) bs li mx"
  by (subst loadWord_victim.simps) simp

lemma loadWord_victim_upper:
  "li < int n \<Longrightarrow> loadWord_victim n i bs li mx < int n"
proof (induction n i bs li mx rule: loadWord_victim.induct)
  case (1 n i bs li mx)
  show ?case
  proof (cases "i < n")
    case False
    with "1.prems" show ?thesis by (simp add: loadWord_victim_end)
  next
    case True
    show ?thesis
    proof (cases "mx < lru (bs ! i)")
      case c: True
      from "1.IH"(1)[OF True c] True show ?thesis
        by (simp add: loadWord_victim_take[OF True c])
    next
      case c: False
      from "1.IH"(2)[OF True c "1.prems"] show ?thesis
        by (simp add: loadWord_victim_skip[OF True c])
    qed
  qed
qed

lemma loadWord_victim_lower:
  "0 \<le> li \<or> (i < n \<and> mx < lru (bs ! i)) \<Longrightarrow> 0 \<le> loadWord_victim n i bs li mx"
proof (induction n i bs li mx rule: loadWord_victim.induct)
  case (1 n i bs li mx)
  show ?case
  proof (cases "i < n")
    case False
    with "1.prems" show ?thesis by (simp add: loadWord_victim_end)
  next
    case True
    show ?thesis
    proof (cases "mx < lru (bs ! i)")
      case c: True
      have "0 \<le> loadWord_victim n (Suc i) bs (int i) (lru (bs ! i))"
        by (rule "1.IH"(1)[OF True c]) simp
      then show ?thesis
        by (simp add: loadWord_victim_take[OF True c])
    next
      case c: False
      with "1.prems" have "0 \<le> li" by auto
      then have "0 \<le> loadWord_victim n (Suc i) bs li mx"
        by (intro "1.IH"(2)[OF True c]) simp
      then show ?thesis
        by (simp add: loadWord_victim_skip[OF True c])
    qed
  qed
qed

subsection \<open>The row invariant\<close>

lemma row_ok_step:
  assumes ok: "row_ok bs" and len: "length bs' = length bs"
    and v: "v < length bs \<longrightarrow> valid (bs' ! v) \<and> lru (bs' ! v) = 0"
    and rest: "\<forall>k<length bs. k \<noteq> v \<longrightarrow>
                 valid (bs' ! k) = valid (bs ! k) \<and> lru (bs' ! k) = lru (bs ! k) + d k"
    and d0: "\<forall>k. 0 \<le> d k" and anti: "\<forall>k m. k < m \<longrightarrow> d m \<le> d k"
  shows "row_ok bs'"
  unfolding row_ok_def
proof (intro conjI allI impI)
  fix k assume "k < length bs'"
  with len have k: "k < length bs" by simp
  from ok k have "0 \<le> lru (bs ! k)" by (simp add: row_ok_def)
  with v rest d0 k show "0 \<le> lru (bs' ! k)"
    by (cases "k = v") (auto simp: add_nonneg_nonneg)
next
  fix k m
  assume a: "k < m \<and> m < length bs' \<and> \<not> valid (bs' ! k) \<and> valid (bs' ! m)"
  with len have k: "k < length bs" and m: "m < length bs" by simp_all
  from a v k have kv: "k \<noteq> v" by auto
  with rest k a have ik: "\<not> valid (bs ! k)" and lk: "lru (bs' ! k) = lru (bs ! k) + d k" by auto
  from ok k have k0: "0 \<le> lru (bs ! k)" by (simp add: row_ok_def)
  show "lru (bs' ! m) \<le> lru (bs' ! k)"
  proof (cases "m = v")
    case True
    with v m have "lru (bs' ! m) = 0" by simp
    with lk k0 d0 show ?thesis by (simp add: add_nonneg_nonneg)
  next
    case False
    with rest m a have vm: "valid (bs ! m)" and lm: "lru (bs' ! m) = lru (bs ! m) + d m" by auto
    from ok a k m ik vm have "lru (bs ! m) \<le> lru (bs ! k)"
      unfolding row_ok_def by blast
    moreover from anti a have "d m \<le> d k" by simp
    ultimately show ?thesis using lk lm by simp
  qed
qed

lemma sdiv_nonneg: "0 \<le> x \<Longrightarrow> 0 < y \<Longrightarrow> x sdiv y = x div (y :: int)"
  by (simp add: signed_divide_int_def sgn_if)

lemma smod_nonneg: "0 \<le> x \<Longrightarrow> 0 < y \<Longrightarrow> x smod y = x mod (y :: int)"
  by (simp add: signed_modulo_int_def sgn_if)

lemma row_of_wf:
  assumes "wf_cache c"
  shows "row_of c a = (uint a div blocksize c) mod numRows c"
    and "0 \<le> row_of c a" and "row_of c a < numRows c" and "nat (row_of c a) < length (rows c)"
proof -
  from assms have b: "0 < blocksize c" and n: "0 < numRows c"
    and l: "length (rows c) = nat (numRows c)" by (simp_all add: wf_cache_def)
  have q: "0 \<le> uint a div blocksize c" using b by (simp add: pos_imp_zdiv_nonneg_iff)
  show eq: "row_of c a = (uint a div blocksize c) mod numRows c"
    using b n q by (simp add: row_of_def sdiv_nonneg smod_nonneg)
  show "0 \<le> row_of c a" "row_of c a < numRows c" using n by (simp_all add: eq)
  then show "nat (row_of c a) < length (rows c)" using l by simp
qed


subsection \<open>storeWord and loadWord on well-formed caches\<close>

lemma wf_cache_row:
  assumes "wf_cache c"
  shows "length (blocks (rows c ! nat (row_of c a))) = nat (associativity c)"
    and "row_ok (blocks (rows c ! nat (row_of c a)))"
    and "0 < length (blocks (rows c ! nat (row_of c a)))"
proof -
  from row_of_wf(4)[OF assms] have "rows c ! nat (row_of c a) \<in> set (rows c)"
    by (rule nth_mem)
  with assms show "length (blocks (rows c ! nat (row_of c a))) = nat (associativity c)"
    and "row_ok (blocks (rows c ! nat (row_of c a)))"
    by (simp_all add: wf_cache_def)
  with assms show "0 < length (blocks (rows c ! nat (row_of c a)))"
    by (simp add: wf_cache_def)
qed

lemma wf_cache_update:
  assumes wf: "wf_cache c" and len: "length bs' = nat (associativity c)" and ok: "row_ok bs'"
  shows "wf_cache (c\<lparr>rows := (rows c)[i := r\<lparr>blocks := bs'\<rparr>]\<rparr>)"
proof -
  have "set ((rows c)[i := r\<lparr>blocks := bs'\<rparr>]) \<subseteq> insert (r\<lparr>blocks := bs'\<rparr>) (set (rows c))"
    by (rule set_update_subset_insert)
  with wf len ok show ?thesis
    by (auto simp: wf_cache_def)
qed

lemma install_block:
  "(b :: CacheBlock)\<lparr>valid := True, tag := tg, lru := 0\<rparr> = \<lparr>valid = True, tag = tg, lru = 0\<rparr>"
  by (cases b) simp

lemma storeWord_wf:
  assumes wf: "wf_cache c"
    and bs: "bs = blocks (rows c ! nat (row_of c a))"
    and v: "v = nat (fst (storeWord_scan (length bs) 0 bs (- 1) (- 1)))"
  shows "storeWord c a =
           Inr (row_of c a,
                c\<lparr>rows := (rows c)[nat (row_of c a) :=
                     (rows c ! nat (row_of c a))\<lparr>blocks :=
                        (map (\<lambda>b. b\<lparr>lru := lru b + 1\<rparr>) bs)
                          [v := \<lparr>valid = True, tag = tag_of c a, lru = 0\<rparr>]\<rparr>]\<rparr>)"
    and "v < length bs"
    and "int v = fst (storeWord_scan (length bs) 0 bs (- 1) (- 1))"
proof -
  from wf have b: "blocksize c \<noteq> 0" and n: "numRows c \<noteq> 0" by (simp_all add: wf_cache_def)
  note r = row_of_wf[OF wf, of a]
  have len: "length bs = nat (associativity c)" and pos: "0 < length bs" and ok: "row_ok bs"
    unfolding bs by (rule wf_cache_row[OF wf])+
  from ok pos have "0 \<le> lru (bs ! 0)" by (simp add: row_ok_def)
  then have lo: "0 \<le> fst (storeWord_scan (length bs) 0 bs (- 1) (- 1))"
    using pos by (intro storeWord_scan_lower) simp
  have up: "fst (storeWord_scan (length bs) 0 bs (- 1) (- 1)) < int (length bs)"
    by (rule storeWord_scan_upper) simp
  from lo up show vl: "v < length bs" and vi: "int v = fst (storeWord_scan (length bs) 0 bs (- 1) (- 1))"
    unfolding v by simp_all
  have r1: "\<not> (row_of c a < 0 \<or> int (length (rows c)) \<le> row_of c a)"
    using r by simp
  have sc: "storeWord_scan (nat (associativity c)) 0 bs (- 1) (- 1)
      = (int v, map (\<lambda>b. b\<lparr>lru := lru b + 1\<rparr>) bs)"
    using snd_storeWord_scan[of bs "- 1" "- 1"] vi
    by (simp add: len[symmetric] prod_eq_iff)
  show "storeWord c a =
           Inr (row_of c a,
                c\<lparr>rows := (rows c)[nat (row_of c a) :=
                     (rows c ! nat (row_of c a))\<lparr>blocks :=
                        (map (\<lambda>b. b\<lparr>lru := lru b + 1\<rparr>) bs)
                          [v := \<lparr>valid = True, tag = tag_of c a, lru = 0\<rparr>]\<rparr>]\<rparr>)"
    using b n r1 len sc
    by (simp add: storeWord_def Let_def row_of_def[symmetric] tag_of_def[symmetric] bs[symmetric]
        install_block)
qed

lemma row_ok_install:
  assumes ok: "row_ok bs"
  shows "row_ok ((map (\<lambda>b. b\<lparr>lru := lru b + 1\<rparr>) bs)[v := \<lparr>valid = True, tag = tg, lru = 0\<rparr>])"
  by (rule row_ok_step[OF ok, where v = v and d = "\<lambda>_. 1"]) (auto simp: nth_list_update)

lemma storeWord_wf_preserved:
  assumes wf: "wf_cache c" and st: "storeWord c a = Inr (r, c')"
  shows "wf_cache c'"
proof -
  let ?bs = "blocks (rows c ! nat (row_of c a))"
  from storeWord_wf(1)[OF wf refl refl, of a] st
  have c': "c' = c\<lparr>rows := (rows c)[nat (row_of c a) :=
                     (rows c ! nat (row_of c a))\<lparr>blocks :=
                        (map (\<lambda>b. b\<lparr>lru := lru b + 1\<rparr>) ?bs)
                          [nat (fst (storeWord_scan (length ?bs) 0 ?bs (- 1) (- 1))) :=
                             \<lparr>valid = True, tag = tag_of c a, lru = 0\<rparr>]\<rparr>]\<rparr>"
    by simp
  show ?thesis
    unfolding c'
    by (rule wf_cache_update[OF wf]) (simp_all add: wf_cache_row[OF wf] row_ok_install)
qed


lemma loadWord_wf_hit:
  assumes wf: "wf_cache c"
    and bs: "bs = blocks (rows c ! nat (row_of c a))"
    and h: "h < length bs" "valid (bs ! h)" "tag (bs ! h) = tag_of c a"
    and first: "\<forall>k<h. \<not> (valid (bs ! k) \<and> tag (bs ! k) = tag_of c a)"
  shows "loadWord c a =
           Inr (1, row_of c a,
                c\<lparr>rows := (rows c)[nat (row_of c a) :=
                     (rows c ! nat (row_of c a))\<lparr>blocks :=
                        map (\<lambda>k. if k = h then (bs ! k)\<lparr>lru := 0\<rparr>
                                  else if k < h then (bs ! k)\<lparr>lru := lru (bs ! k) + 2\<rparr>
                                  else (bs ! k)\<lparr>lru := lru (bs ! k) + 1\<rparr>) [0..<length bs]\<rparr>]\<rparr>)"
proof -
  from wf have b: "blocksize c \<noteq> 0" and n: "numRows c \<noteq> 0" by (simp_all add: wf_cache_def)
  note r = row_of_wf[OF wf, of a]
  have len: "length bs = nat (associativity c)"
    unfolding bs by (rule wf_cache_row[OF wf])
  have r1: "\<not> (row_of c a < 0 \<or> int (length (rows c)) \<le> row_of c a)"
    using r by simp
  from loadWord_hit_hit[of "length bs" bs 0 h "tag_of c a"] h first
  have f: "fst (loadWord_hit (tag_of c a) (length bs) 0 bs) = 1"
    and p: "\<forall>k<length bs. snd (loadWord_hit (tag_of c a) (length bs) 0 bs) ! k =
      (if k = h then (bs ! k)\<lparr>lru := 0\<rparr>
       else if k < h then (bs ! k)\<lparr>lru := lru (bs ! k) + 2\<rparr>
       else (bs ! k)\<lparr>lru := lru (bs ! k) + 1\<rparr>)"
    by auto
  have "snd (loadWord_hit (tag_of c a) (length bs) 0 bs) =
      map (\<lambda>k. if k = h then (bs ! k)\<lparr>lru := 0\<rparr>
                else if k < h then (bs ! k)\<lparr>lru := lru (bs ! k) + 2\<rparr>
                else (bs ! k)\<lparr>lru := lru (bs ! k) + 1\<rparr>) [0..<length bs]"
    by (rule nth_equalityI) (simp_all add: p)
  with f have sc: "loadWord_hit (tag_of c a) (nat (associativity c)) 0 bs =
      (1, map (\<lambda>k. if k = h then (bs ! k)\<lparr>lru := 0\<rparr>
                else if k < h then (bs ! k)\<lparr>lru := lru (bs ! k) + 2\<rparr>
                else (bs ! k)\<lparr>lru := lru (bs ! k) + 1\<rparr>) [0..<length bs])"
    by (simp add: len[symmetric] prod_eq_iff)
  show ?thesis
    using b n r1 len sc
    by (simp add: loadWord_def Let_def row_of_def[symmetric] tag_of_def[symmetric] bs[symmetric])
qed

lemma loadWord_wf_miss:
  assumes wf: "wf_cache c"
    and bs: "bs = blocks (rows c ! nat (row_of c a))"
    and none: "\<forall>k<length bs. \<not> (valid (bs ! k) \<and> tag (bs ! k) = tag_of c a)"
    and v: "v = nat (loadWord_victim (length bs) 0 (map (\<lambda>b. b\<lparr>lru := lru b + 1\<rparr>) bs) (- 1) (- 1))"
  shows "loadWord c a =
           Inr (0, row_of c a,
                c\<lparr>rows := (rows c)[nat (row_of c a) :=
                     (rows c ! nat (row_of c a))\<lparr>blocks :=
                        (map (\<lambda>b. b\<lparr>lru := lru b + 1\<rparr>) bs)
                          [v := \<lparr>valid = True, tag = tag_of c a, lru = 0\<rparr>]\<rparr>]\<rparr>)"
    and "v < length bs"
proof -
  let ?aged = "map (\<lambda>b. b\<lparr>lru := lru b + 1\<rparr>) bs"
  from wf have b: "blocksize c \<noteq> 0" and n: "numRows c \<noteq> 0" by (simp_all add: wf_cache_def)
  note r = row_of_wf[OF wf, of a]
  have len: "length bs = nat (associativity c)" and pos: "0 < length bs" and ok: "row_ok bs"
    unfolding bs by (rule wf_cache_row[OF wf])+
  have r1: "\<not> (row_of c a < 0 \<or> int (length (rows c)) \<le> row_of c a)"
    using r by simp
  from loadWord_hit_miss[of "length bs" bs 0 "tag_of c a"] none
  have f: "fst (loadWord_hit (tag_of c a) (length bs) 0 bs) = 0"
    and p: "\<forall>k<length bs. snd (loadWord_hit (tag_of c a) (length bs) 0 bs) ! k =
       (bs ! k)\<lparr>lru := lru (bs ! k) + 1\<rparr>"
    by auto
  have "snd (loadWord_hit (tag_of c a) (length bs) 0 bs) = ?aged"
    by (rule nth_equalityI) (simp_all add: p)
  with f have sc: "loadWord_hit (tag_of c a) (nat (associativity c)) 0 bs = (0, ?aged)"
    by (simp add: len[symmetric] prod_eq_iff)
  from ok pos have "0 \<le> lru (bs ! 0)" by (simp add: row_ok_def)
  then have "- 1 < lru (?aged ! 0)" using pos by simp
  then have lo: "0 \<le> loadWord_victim (length bs) 0 ?aged (- 1) (- 1)"
    using pos by (intro loadWord_victim_lower) simp
  have up: "loadWord_victim (length bs) 0 ?aged (- 1) (- 1) < int (length bs)"
    by (rule loadWord_victim_upper) simp
  from lo up show vl: "v < length bs"
    unfolding v by simp
  from lo have vi: "\<not> loadWord_victim (nat (associativity c)) 0 ?aged (- 1) (- 1) < 0"
    by (simp add: len)
  show "loadWord c a =
           Inr (0, row_of c a,
                c\<lparr>rows := (rows c)[nat (row_of c a) :=
                     (rows c ! nat (row_of c a))\<lparr>blocks :=
                        ?aged[v := \<lparr>valid = True, tag = tag_of c a, lru = 0\<rparr>]\<rparr>]\<rparr>)"
    using b n r1 len sc vi
    by (simp add: loadWord_def Let_def row_of_def[symmetric] tag_of_def[symmetric] bs[symmetric]
        install_block v)
qed

lemma row_ok_hit:
  assumes ok: "row_ok bs" and h: "h < length bs" "valid (bs ! h)"
  shows "row_ok (map (\<lambda>k. if k = h then (bs ! k)\<lparr>lru := 0\<rparr>
                           else if k < h then (bs ! k)\<lparr>lru := lru (bs ! k) + 2\<rparr>
                           else (bs ! k)\<lparr>lru := lru (bs ! k) + 1\<rparr>) [0..<length bs])"
  by (rule row_ok_step[OF ok, where v = h and d = "\<lambda>k. if k < h then 2 else 1"])
     (use h in auto)

lemma first_match:
  assumes "\<exists>k<length bs. valid (bs ! k) \<and> tag (bs ! k) = tg"
  shows "\<exists>h<length bs. valid (bs ! h) \<and> tag (bs ! h) = tg \<and>
           (\<forall>k<h. \<not> (valid (bs ! k) \<and> tag (bs ! k) = tg))"
proof -
  let ?P = "\<lambda>k. k < length bs \<and> valid (bs ! k) \<and> tag (bs ! k) = tg"
  from assms have "\<exists>k. ?P k" by blast
  then obtain h where h: "?P h" and least: "\<forall>m<h. \<not> ?P m"
    using exists_least_iff[of ?P] by blast
  have "\<forall>k<h. \<not> (valid (bs ! k) \<and> tag (bs ! k) = tg)"
  proof (intro allI impI)
    fix k assume k: "k < h"
    with least have "\<not> ?P k" by blast
    moreover from k h have "k < length bs" by simp
    ultimately show "\<not> (valid (bs ! k) \<and> tag (bs ! k) = tg)" by simp
  qed
  with h show ?thesis by blast
qed

lemma loadWord_wf_total:
  assumes wf: "wf_cache c"
  shows "\<exists>r c'. loadWord c a = Inr (r, row_of c a, c') \<and> (r = 0 \<or> r = 1) \<and> wf_cache c' \<and>
           (r = 1 \<longleftrightarrow> (\<exists>k<length (blocks (rows c ! nat (row_of c a))).
                valid (blocks (rows c ! nat (row_of c a)) ! k) \<and>
                tag (blocks (rows c ! nat (row_of c a)) ! k) = tag_of c a))"
proof -
  let ?bs = "blocks (rows c ! nat (row_of c a))"
  show ?thesis
  proof (cases "\<exists>k<length ?bs. valid (?bs ! k) \<and> tag (?bs ! k) = tag_of c a")
    case True
    from first_match[OF this]
    obtain h where h: "h < length ?bs" "valid (?bs ! h)" "tag (?bs ! h) = tag_of c a"
      "\<forall>k<h. \<not> (valid (?bs ! k) \<and> tag (?bs ! k) = tag_of c a)"
      by blast
    have "wf_cache (c\<lparr>rows := (rows c)[nat (row_of c a) :=
                     (rows c ! nat (row_of c a))\<lparr>blocks :=
                        map (\<lambda>k. if k = h then (?bs ! k)\<lparr>lru := 0\<rparr>
                                  else if k < h then (?bs ! k)\<lparr>lru := lru (?bs ! k) + 2\<rparr>
                                  else (?bs ! k)\<lparr>lru := lru (?bs ! k) + 1\<rparr>) [0..<length ?bs]\<rparr>]\<rparr>)"
    proof (rule wf_cache_update[OF wf])
      show "row_ok (map (\<lambda>k. if k = h then (?bs ! k)\<lparr>lru := 0\<rparr>
                                  else if k < h then (?bs ! k)\<lparr>lru := lru (?bs ! k) + 2\<rparr>
                                  else (?bs ! k)\<lparr>lru := lru (?bs ! k) + 1\<rparr>) [0..<length ?bs])"
        by (rule row_ok_hit[OF wf_cache_row(2)[OF wf] h(1,2)])
    qed (simp add: wf_cache_row[OF wf])
    with loadWord_wf_hit[OF wf refl h] True show ?thesis
      by (intro exI[of _ 1] exI conjI) (assumption | simp)+
  next
    case False
    then have none: "\<forall>k<length ?bs. \<not> (valid (?bs ! k) \<and> tag (?bs ! k) = tag_of c a)" by blast
    have "wf_cache (c\<lparr>rows := (rows c)[nat (row_of c a) :=
                     (rows c ! nat (row_of c a))\<lparr>blocks :=
                        (map (\<lambda>b. b\<lparr>lru := lru b + 1\<rparr>) ?bs)
                          [nat (loadWord_victim (length ?bs) 0 (map (\<lambda>b. b\<lparr>lru := lru b + 1\<rparr>) ?bs) (- 1) (- 1))
                             := \<lparr>valid = True, tag = tag_of c a, lru = 0\<rparr>]\<rparr>]\<rparr>)"
      by (rule wf_cache_update[OF wf]) (simp_all add: wf_cache_row[OF wf] row_ok_install)
    with loadWord_wf_miss(1)[OF wf refl none refl] False show ?thesis
      by (intro exI[of _ 0] exI conjI) (assumption | simp)+
  qed
qed

lemma storeWord_wf_total:
  assumes wf: "wf_cache c"
  shows "\<exists>c'. storeWord c a = Inr (row_of c a, c') \<and> wf_cache c'"
proof -
  from storeWord_wf(1)[OF wf refl refl, of a]
  obtain c' where c': "storeWord c a = Inr (row_of c a, c')" by blast
  from storeWord_wf_preserved[OF wf c'] c' show ?thesis by blast
qed

lemma Cache_init_wf:
  assumes "0 < assoc" "0 < bsize" "assoc * bsize \<le> sz" "sz < 2 ^ 31"
  shows "Cache_init sz assoc bsize =
           Inr \<lparr>rows = replicate (nat (sz div (assoc * bsize)))
                        \<lparr>blocks = replicate (nat assoc) \<lparr>valid = False, tag = 0, lru = 0\<rparr>\<rparr>,
                cacheSize = sz, associativity = assoc, blocksize = bsize,
                numRows = sz div (assoc * bsize)\<rparr>"
    and "Cache_init sz assoc bsize = Inr c \<Longrightarrow> wf_cache c"
proof -
  from assms have p: "0 < assoc * bsize" by simp
  with assms have s: "0 \<le> sz" by linarith
  from p assms(3) have q: "0 < sz div (assoc * bsize)"
    by (simp add: pos_imp_zdiv_pos_iff)
  from p assms(3,4) have "- (2 ^ 31) \<le> assoc * bsize" and "assoc * bsize < 2 ^ 31"
    by linarith+
  then have w: "signed_take_bit 31 (assoc * bsize) = assoc * bsize"
    by (rule signed_take_bit_int_eq_self)
  from p assms(3) have "sz div (assoc * bsize) \<le> sz"
    by (intro int_div_le_self) linarith
  with q assms(4) have r: "\<not> (sz div (assoc * bsize) < - (2 ^ 31) \<or> 2 ^ 31 \<le> sz div (assoc * bsize))"
    by linarith
  show eq: "Cache_init sz assoc bsize =
           Inr \<lparr>rows = replicate (nat (sz div (assoc * bsize)))
                        \<lparr>blocks = replicate (nat assoc) \<lparr>valid = False, tag = 0, lru = 0\<rparr>\<rparr>,
                cacheSize = sz, associativity = assoc, blocksize = bsize,
                numRows = sz div (assoc * bsize)\<rparr>"
    using p q s r assms(1,2)
    by (simp add: Cache_init_def CacheRow_init_def CacheBlock_init_def Let_def sdiv_nonneg w)
  assume "Cache_init sz assoc bsize = Inr c"
  with eq have "c = \<lparr>rows = replicate (nat (sz div (assoc * bsize)))
                        \<lparr>blocks = replicate (nat assoc) \<lparr>valid = False, tag = 0, lru = 0\<rparr>\<rparr>,
                cacheSize = sz, associativity = assoc, blocksize = bsize,
                numRows = sz div (assoc * bsize)\<rparr>" by simp
  then show "wf_cache c"
    using q assms(1,2) by (simp add: wf_cache_def row_ok_def)
qed

lemma reachable_wf: "reachable c \<Longrightarrow> wf_cache c"
proof (induction rule: reachable.induct)
  case (constructed assoc bsize sz c)
  then show ?case by (rule Cache_init_wf(2))
next
  case (loaded c a r row c')
  from loadWord_wf_total[OF loaded.IH, of a]
  obtain r' c'' where "loadWord c a = Inr (r', row_of c a, c'')" and "wf_cache c''"
    by blast
  with loaded.hyps(2) show ?case by simp
next
  case (stored c a row c')
  from storeWord_wf_preserved[OF stored.IH stored.hyps(2)] show ?case .
qed

section \<open>Instruction decoding\<close>

lemma reg_index_lt: "unat ((w :: 16 word) AND 0x7) < 8"
proof -
  have "unat (w AND 7) \<le> unat (7 :: 16 word)"
    by (rule word_and_le1 [THEN word_le_nat_alt [THEN iffD1]])
  then show ?thesis by simp
qed

lemma imm7_lt: "unat ((w :: 16 word) AND 0x7F) < 128"
proof -
  have "unat (w AND 0x7F) \<le> unat (0x7F :: 16 word)"
    by (rule word_and_le1 [THEN word_le_nat_alt [THEN iffD1]])
  then show ?thesis by simp
qed

lemma addr_lt: "unat ((w :: 16 word) AND 0x1FFF) < 8192"
proof -
  have "unat (w AND 0x1FFF) \<le> unat (0x1FFF :: 16 word)"
    by (rule word_and_le1 [THEN word_le_nat_alt [THEN iffD1]])
  then show ?thesis by simp
qed

lemma imm_bit6: "((w :: 16 word) AND 0x7F) AND 0x40 \<noteq> 0 \<longleftrightarrow> 64 \<le> unat (w AND 0x7F)"
proof -
  let ?x = "w AND 0x7F"
  have lt: "unat ?x < 128" by (rule imm7_lt)
  have "?x AND 0x40 \<noteq> 0 \<longleftrightarrow> bit ?x 6"
    using and_exp_eq_0_iff_not_bit [of ?x 6] by simp
  also have "\<dots> \<longleftrightarrow> bit (unat ?x) 6"
    by (simp add: bit_unsigned_iff)
  also have "\<dots> \<longleftrightarrow> odd (unat ?x div 64)"
    by (simp add: bit_iff_odd)
  also have "\<dots> \<longleftrightarrow> 64 \<le> unat ?x"
  proof (cases "64 \<le> unat ?x")
    case True
    with lt have "unat ?x div 64 = 1" by simp
    with True show ?thesis by simp
  next
    case False
    then have "unat ?x div 64 = 0" by simp
    with False show ?thesis by simp
  qed
  finally show ?thesis .
qed

lemma imm_extended: "unat ((w AND 0x7F) OR 0xFF80 :: 16 word) = unat (w AND 0x7F) + 65408"
proof -
  let ?x = "w AND 0x7F"
  have lt: "unat ?x < 128" by (rule imm7_lt)
  have disj: "(w AND mask 7) AND NOT (mask 7) = (0 :: 16 word)"
    by (simp add: bit_eq_iff bit_simps)
  have m: "(mask 7 :: 16 word) = 0x7F" and n: "NOT (0x7F :: 16 word) = 0xFF80"
    by (simp_all add: mask_eq_exp_minus_1)
  from disj have "?x AND 0xFF80 = 0"
    unfolding m n .
  then have "?x OR 0xFF80 = ?x + 0xFF80"
    by (rule disjunctive_add_eq_or [symmetric])
  moreover have "unat (?x + 0xFF80) = unat ?x + unat (0xFF80 :: 16 word)"
    using lt by (subst unat_add_lem [THEN iffD1]) auto
  ultimately show ?thesis by simp
qed

text \<open>The immediate of \<^verbatim>\<open>execute_imm_instruction\<close>, as a number.\<close>

lemma unat_imm:
  "unat (if (instr AND 0x7F) AND 0x40 \<noteq> 0 then (instr AND 0x7F) OR 0xFF80 else instr AND 0x7F :: 16 word)
     = (if unat (instr AND 0x7F) < 64 then unat (instr AND 0x7F) else unat (instr AND 0x7F) + 65408)"
  by (simp add: imm_bit6 imm_extended not_less)

subsection \<open>Register 0 and the opcode\<close>

lemma execute_instruction_reg0:
  "0 < length (regs s) \<Longrightarrow> regs (execute_instruction instr s) ! 0 = 0"
  by (simp add: execute_instruction_def Let_def)

lemma execute_control_instruction_reg0:
  "0 < length (regs s) \<Longrightarrow> regs (execute_control_instruction instr s) ! 0 = 0"
  by (simp add: execute_control_instruction_def Let_def)

lemma execute_imm_instruction_length:
  "execute_imm_instruction instr s = Inr s' \<Longrightarrow> length (regs s') = length (regs s)"
  by (auto simp: execute_imm_instruction_def Let_def split: if_splits sum.splits prod.splits option.splits)

lemma execute_imm_instruction_reg0:
  "0 < length (regs s) \<Longrightarrow> execute_imm_instruction instr s = Inr s' \<Longrightarrow> regs s' ! 0 = 0"
  by (auto simp: execute_imm_instruction_def Let_def split: if_splits sum.splits prod.splits option.splits)


lemma opcode_cases:
  fixes w :: "16 word"
  shows "w AND 0x7 = 0 \<or> w AND 0x7 = 1 \<or> w AND 0x7 = 2 \<or> w AND 0x7 = 3 \<or>
         w AND 0x7 = 4 \<or> w AND 0x7 = 5 \<or> w AND 0x7 = 6 \<or> w AND 0x7 = 7"
proof -
  let ?x = "w AND 0x7"
  have "unat ?x < 8" by (rule reg_index_lt)
  then have "unat ?x = 0 \<or> unat ?x = 1 \<or> unat ?x = 2 \<or> unat ?x = 3 \<or>
             unat ?x = 4 \<or> unat ?x = 5 \<or> unat ?x = 6 \<or> unat ?x = 7"
    by linarith
  then show ?thesis
    by (simp add: word_unat_eq_iff)
qed

subsection \<open>The effective address\<close>

lemma uint_and_0x1FFF: "uint ((w :: 16 word) AND 0x1FFF) = uint w mod 2 ^ 13"
proof -
  have "(0x1FFF :: 16 word) = mask 13" by (simp add: mask_eq_exp_minus_1)
  then have "w AND 0x1FFF = take_bit 13 w" by (simp add: take_bit_eq_mask)
  then show ?thesis by (simp add: take_bit_eq_mod uint_mod_distrib)
qed

lemma uint_imm:
  "uint (if (instr AND 0x7F) AND 0x40 \<noteq> 0 then (instr AND 0x7F) OR 0xFF80 else instr AND 0x7F :: 16 word)
     = (if uint (instr AND 0x7F) < 64 then uint (instr AND 0x7F) else uint (instr AND 0x7F) + 65408)"
proof -
  let ?imm = "if (instr AND 0x7F) AND 0x40 \<noteq> 0 then (instr AND 0x7F) OR 0xFF80 else instr AND 0x7F :: 16 word"
  let ?x = "uint (instr AND 0x7F)"
  have xi: "?x = int (unat (instr AND 0x7F))" by simp
  have "uint ?imm = int (unat ?imm)" by simp
  also have "\<dots> = int (if unat (instr AND 0x7F) < 64 then unat (instr AND 0x7F)
                        else unat (instr AND 0x7F) + 65408)"
    by (simp only: unat_imm)
  also have "\<dots> = (if ?x < 64 then ?x else ?x + 65408)"
  proof -
    have "unat (instr AND 0x7F) < 64 \<longleftrightarrow> ?x < 64"
      unfolding xi by linarith
    then show ?thesis by simp
  qed
  finally show ?thesis .
qed

lemma effective_address:
  fixes a :: "16 word"
  shows "uint ((a + (if (instr AND 0x7F) AND 0x40 \<noteq> 0 then (instr AND 0x7F) OR 0xFF80
                     else instr AND 0x7F)) AND 0x1FFF)
     = (uint a + (if uint (instr AND 0x7F) < 64 then uint (instr AND 0x7F)
                  else uint (instr AND 0x7F) - 128)) mod 2 ^ 13"
proof -
  let ?imm = "if (instr AND 0x7F) AND 0x40 \<noteq> 0 then (instr AND 0x7F) OR 0xFF80 else instr AND 0x7F :: 16 word"
  let ?x = "uint (instr AND 0x7F)"
  have "uint ((a + ?imm) AND 0x1FFF) = ((uint a + uint ?imm) mod 2 ^ 16) mod 2 ^ 13"
    by (simp only: uint_and_0x1FFF uint_word_ariths) simp
  also have "\<dots> = (uint a + uint ?imm) mod 2 ^ 13"
    by (rule mod_mod_cancel) simp
  also have "\<dots> = (uint a + (if ?x < 64 then ?x else ?x - 128)) mod 2 ^ 13"
  proof (cases "?x < 64")
    case True
    then show ?thesis by (simp only: uint_imm if_True)
  next
    case False
    have "uint a + (?x + 65408) = (uint a + (?x - 128)) + 8 * 8192" by simp
    then have "(uint a + (?x + 65408)) mod 8192 = (uint a + (?x - 128)) mod 8192"
      by (simp only: mod_mult_self1 mod_mult_self2)
    with False show ?thesis by (simp only: uint_imm if_False) simp
  qed
  finally show ?thesis .
qed

subsection \<open>Victim indices exist\<close>



subsection \<open>The example caches\<close>

lemma Cache_init_examples:
  "Cache_init 4 1 1 = Inr example_l1"
  "Cache_init 8 2 1 = Inr example_l2"
  "Cache_init 2 2 1 = Inr example_two_way"
  by code_simp+

lemma reachable_examples:
  "reachable example_l1" "reachable example_l2" "reachable example_two_way"
proof -
  show "reachable example_l1"
    by (rule reachable.constructed[OF _ _ _ _ Cache_init_examples(1)]) simp_all
  show "reachable example_l2"
    by (rule reachable.constructed[OF _ _ _ _ Cache_init_examples(2)]) simp_all
  show "reachable example_two_way"
    by (rule reachable.constructed[OF _ _ _ _ Cache_init_examples(3)]) simp_all
qed

text \<open>
  The product of the constructor is a 32-bit value: 65536 * 65536 is 0 and the division
  traps; 65536 * 32768 is the least \<^verbatim>\<open>int\<close> and the quotient is 0.
\<close>

lemma Cache_init_product_32_bit:
  "Cache_init 1 65536 65536 = Inl DivideByZero"
  "Cache_init 1 65536 32768 =
     Inr \<lparr>rows = [], cacheSize = 1, associativity = 65536, blocksize = 32768, numRows = 0\<rparr>"
  "Cache_init (- 2147483648) (- 1) 1 = Inl DivideOverflow"
  by code_simp+

subsection \<open>A run on well-formed caches reports no error\<close>

lemma execute_imm_instruction_wf:
  assumes l1: "wf_cache (l1Cache s)" and l2: "\<forall>c. l2Cache s = Some c \<longrightarrow> wf_cache c"
  shows "\<exists>s'. execute_imm_instruction instr s = Inr s' \<and> wf_cache (l1Cache s') \<and>
              (\<forall>c. l2Cache s' = Some c \<longrightarrow> wf_cache c)"
proof -
  let ?addr = "(regs s ! unat (drop_bit 10 instr AND 0x7)
                 + (if (instr AND 0x7F) AND 0x40 \<noteq> 0 then (instr AND 0x7F) OR 0xFF80
                    else instr AND 0x7F)) AND 0x1FFF"
  from loadWord_wf_total[OF l1, of ?addr]
  obtain r1 l1' where L1: "loadWord (l1Cache s) ?addr = Inr (r1, row_of (l1Cache s) ?addr, l1')"
    and w1: "wf_cache l1'" by blast
  from storeWord_wf_total[OF l1, of ?addr]
  obtain l1s where S1: "storeWord (l1Cache s) ?addr = Inr (row_of (l1Cache s) ?addr, l1s)"
    and ws1: "wf_cache l1s" by blast
  show ?thesis
  proof (cases "l2Cache s")
    case None
    with L1 w1 S1 ws1 l1 show ?thesis
      by (simp add: execute_imm_instruction_def Let_def)
  next
    case (Some c2)
    with l2 have wc: "wf_cache c2" by simp
    from loadWord_wf_total[OF wc, of ?addr]
    obtain r2 l2' where L2: "loadWord c2 ?addr = Inr (r2, row_of c2 ?addr, l2')"
      and w2: "wf_cache l2'" by blast
    from storeWord_wf_total[OF wc, of ?addr]
    obtain l2s where S2: "storeWord c2 ?addr = Inr (row_of c2 ?addr, l2s)"
      and ws2: "wf_cache l2s" by blast
    from Some wc L1 w1 S1 ws1 L2 w2 S2 ws2 l1 show ?thesis
      by (simp add: execute_imm_instruction_def Let_def)
  qed
qed

lemma main_loop_body_wf:
  assumes l1: "wf_cache (l1Cache s)" and l2: "\<forall>c. l2Cache s = Some c \<longrightarrow> wf_cache c"
  shows "\<exists>s'. main_loop_body s = Inr s' \<and> wf_cache (l1Cache s') \<and>
              (\<forall>c. l2Cache s' = Some c \<longrightarrow> wf_cache c)"
  using execute_imm_instruction_wf[OF l1 l2, of "memory s ! unat (pc s AND 8191)"] l1 l2
  by (simp add: main_loop_body_def Let_def execute_instruction_def execute_control_instruction_def)

lemma main_loop_no_error:
  assumes "main_loop s = Some y"
  shows "wf_cache (l1Cache s) \<longrightarrow> (\<forall>c. l2Cache s = Some c \<longrightarrow> wf_cache c) \<longrightarrow> (\<exists>s'. y = Inr s')"
proof (induction rule: main_loop.raw_induct [OF _ assms])
  case (1 loop s y)
  show ?case
  proof (intro impI)
    assume l1: "wf_cache (l1Cache s)" and l2: "\<forall>c. l2Cache s = Some c \<longrightarrow> wf_cache c"
    from main_loop_body_wf[OF l1 l2]
    obtain s1 where b: "main_loop_body s = Inr s1" and w1: "wf_cache (l1Cache s1)"
      and w2: "\<forall>c. l2Cache s1 = Some c \<longrightarrow> wf_cache c" by blast
    show "\<exists>s'. y = Inr s'"
    proof (cases "isHalt s")
      case True
      with "1.hyps" show ?thesis by auto
    next
      case False
      with "1.hyps" b have "loop s1 = Some y" by simp
      from "1.IH"[OF this] w1 w2 show ?thesis by blast
    qed
  qed
qed

section \<open>The claims\<close>

subsection \<open>C2: set-less-than-immediate\<close>

text \<open>
  C2, as stated, compares the source register with the raw 7-bit immediate (0..127).
  The code extends the immediate to 16 bits before the switch, for every opcode, and
  compares the two 16-bit values unsigned. At \<^verbatim>\<open>slti $2,$1,64\<close> with \<open>$1 = 100\<close>
  the raw comparison \<open>100 < 64\<close> is false, and the code writes 1.
\<close>

theorem slti_raw_immediate_counterexample:
  "execute_imm_instruction 0xE540 example_machine =
     Inr (example_machine\<lparr>regs := [0, 100, 1, 7, 0xFFFF, 0, 0, 0], pc := 1\<rparr>)
   \<and> regs example_machine ! unat (drop_bit 10 (0xE540 :: 16 word) AND 0x7) = 100
   \<and> unat (drop_bit 7 (0xE540 :: 16 word) AND 0x7) = 2
   \<and> unat (0xE540 AND 0x7F :: 16 word) = 64
   \<and> \<not> unat (100 :: 16 word) < 64"
  by (simp add: execute_imm_instruction_def example_machine_def Let_def)

text \<open>
  C2 (amended): for every executed set-less-than-immediate instruction, the destination
  register is set to 1 if the source register's unsigned 16-bit value is less than the
  7-bit immediate sign-extended to 16 bits and read unsigned (0..63 when bit 6 is clear,
  65472..65535 when it is set), and to 0 otherwise; register 0 is then cleared and the
  pc advances by 1.
\<close>

theorem slti_compares_sign_extended_immediate:
  assumes "drop_bit 13 instr AND 0x7 = 7"
  shows "execute_imm_instruction instr s =
           Inr (s\<lparr>regs := (regs s)[unat (drop_bit 7 instr AND 0x7) :=
                      (if unat (regs s ! unat (drop_bit 10 instr AND 0x7))
                            < (if unat (instr AND 0x7F) < 64 then unat (instr AND 0x7F)
                               else unat (instr AND 0x7F) + 65408)
                       then 1 else 0),
                    0 := 0],
                  pc := pc s + 1\<rparr>)"
  using assms unat_imm[of instr]
  by (simp add: execute_imm_instruction_def Let_def)

theorem slti_compares_sign_extended_immediate_witness:
  "drop_bit 13 (0xE57F :: 16 word) AND 0x7 = 7 \<and>
   execute_imm_instruction 0xE57F example_machine =
     Inr (example_machine\<lparr>regs := [0, 100, 1, 7, 0xFFFF, 0, 0, 0], pc := 1\<rparr>)"
proof -
  have h: "drop_bit 13 (0xE57F :: 16 word) AND 0x7 = 7" by simp
  show ?thesis
    using h slti_compares_sign_extended_immediate [OF h, of example_machine]
    by (simp add: example_machine_def)
qed

subsection \<open>C10: register arithmetic wraps\<close>

text \<open>
  C10: register arithmetic wraps modulo 2^16. For a destination other than register 0,
  add leaves \<open>(a + b) mod 2^16\<close>, sub leaves \<open>(a - b) mod 2^16\<close>, and addi leaves
  \<open>(a + imm) mod 2^16\<close>, where \<open>imm\<close> is the 7-bit immediate read as a two's-complement
  number (-64..63); \<open>a\<close> and \<open>b\<close> are the unsigned values of the source registers
  before the instruction.
\<close>

theorem register_arithmetic_wraps:
  assumes "length (regs s) = 8" and "dst \<noteq> 0"
  shows "(instr AND 0xF = 0 \<and> unat (drop_bit 4 instr AND 0x7) = dst \<longrightarrow>
            uint (regs (execute_instruction instr s) ! dst) =
              (uint (regs s ! unat (drop_bit 10 instr AND 0x7))
                 + uint (regs s ! unat (drop_bit 7 instr AND 0x7))) mod 2 ^ 16)
       \<and> (instr AND 0xF = 1 \<and> unat (drop_bit 4 instr AND 0x7) = dst \<longrightarrow>
            uint (regs (execute_instruction instr s) ! dst) =
              (uint (regs s ! unat (drop_bit 10 instr AND 0x7))
                 - uint (regs s ! unat (drop_bit 7 instr AND 0x7))) mod 2 ^ 16)
       \<and> (drop_bit 13 instr AND 0x7 = 1 \<and> unat (drop_bit 7 instr AND 0x7) = dst \<longrightarrow>
            (\<exists>s'. execute_imm_instruction instr s = Inr s' \<and>
               uint (regs s' ! dst) =
                 (uint (regs s ! unat (drop_bit 10 instr AND 0x7))
                    + (if uint (instr AND 0x7F) < 64 then uint (instr AND 0x7F)
                       else uint (instr AND 0x7F) - 128)) mod 2 ^ 16))"
proof (intro conjI impI)
  assume a: "instr AND 0xF = 0 \<and> unat (drop_bit 4 instr AND 0x7) = dst"
  with assms reg_index_lt[of "drop_bit 4 instr"]
  show "uint (regs (execute_instruction instr s) ! dst) =
              (uint (regs s ! unat (drop_bit 10 instr AND 0x7))
                 + uint (regs s ! unat (drop_bit 7 instr AND 0x7))) mod 2 ^ 16"
    by (simp add: execute_instruction_def Let_def uint_word_ariths)
next
  assume a: "instr AND 0xF = 1 \<and> unat (drop_bit 4 instr AND 0x7) = dst"
  with assms reg_index_lt[of "drop_bit 4 instr"]
  show "uint (regs (execute_instruction instr s) ! dst) =
              (uint (regs s ! unat (drop_bit 10 instr AND 0x7))
                 - uint (regs s ! unat (drop_bit 7 instr AND 0x7))) mod 2 ^ 16"
    by (simp add: execute_instruction_def Let_def uint_word_ariths)
next
  assume a: "drop_bit 13 instr AND 0x7 = 1 \<and> unat (drop_bit 7 instr AND 0x7) = dst"
  let ?imm = "if (instr AND 0x7F) AND 0x40 \<noteq> 0 then (instr AND 0x7F) OR 0xFF80 else instr AND 0x7F :: 16 word"
  let ?x = "uint (instr AND 0x7F)"
  have xi: "?x = int (unat (instr AND 0x7F))" by simp
  have "uint ?imm = int (unat ?imm)" by simp
  also have "\<dots> = int (if unat (instr AND 0x7F) < 64 then unat (instr AND 0x7F)
                        else unat (instr AND 0x7F) + 65408)"
    by (simp only: unat_imm)
  also have "\<dots> = (if ?x < 64 then ?x else ?x + 65408)"
  proof -
    have "unat (instr AND 0x7F) < 64 \<longleftrightarrow> ?x < 64"
      unfolding xi by linarith
    then show ?thesis by simp
  qed
  finally have u: "uint ?imm = (if ?x < 64 then ?x else ?x + 65408)" .
  have "uint (regs s ! unat (drop_bit 10 instr AND 0x7) + ?imm) =
      (uint (regs s ! unat (drop_bit 10 instr AND 0x7)) + (if ?x < 64 then ?x else ?x - 128)) mod 2 ^ 16"
  proof (cases "?x < 64")
    case True
    with u show ?thesis by (simp add: uint_word_ariths)
  next
    case False
    have "(a + (x + 65408)) mod 65536 = (a + (x - 128)) mod 65536" for a x :: int
    proof -
      have "a + (x + 65408) = (a + (x - 128)) + 65536" by simp
      then show ?thesis by (simp only: mod_add_self2)
    qed
    then show ?thesis using False u by (simp add: uint_word_ariths)

  qed
  with a assms reg_index_lt[of "drop_bit 7 instr"]
  show "\<exists>s'. execute_imm_instruction instr s = Inr s' \<and>
               uint (regs s' ! dst) =
                 (uint (regs s ! unat (drop_bit 10 instr AND 0x7))
                    + (if uint (instr AND 0x7F) < 64 then uint (instr AND 0x7F)
                       else uint (instr AND 0x7F) - 128)) mod 2 ^ 16"
    by (simp add: execute_imm_instruction_def Let_def)
qed

theorem register_arithmetic_wraps_witness:
  "length (regs example_machine) = 8 \<and> (3 :: nat) \<noteq> 0 \<and>
   uint (regs (execute_instruction 0x1230 example_machine) ! 3) = 65534 \<and>
   uint (regs (execute_instruction 0x0631 example_machine) ! 3) = 101 \<and>
   (\<exists>s'. execute_imm_instruction 0x21FF example_machine = Inr s' \<and> uint (regs s' ! 3) = 65535)"
proof -
  have h: "length (regs example_machine) = 8" "(3 :: nat) \<noteq> 0"
    by (simp_all add: example_machine_def)
  show ?thesis
    using h register_arithmetic_wraps [OF h, of "0x1230"]
      register_arithmetic_wraps [OF h, of "0x0631"]
      register_arithmetic_wraps [OF h, of "0x21FF"]
    by (simp add: example_machine_def)
qed

subsection \<open>C9: register 0\<close>

text \<open>
  C9: after every executed instruction, register 0 reads as 0. Each of the three
  execution functions ends with \<^verbatim>\<open>regs[0] = 0\<close>, whatever the destination field
  encodes, and the loop body calls one of them unless the fetched word is the halting
  jump to itself, which executes nothing.
\<close>

theorem register_zero_after_every_instruction:
  assumes "length (regs s) = 8"
  shows "regs (execute_instruction instr s) ! 0 = 0
       \<and> regs (execute_control_instruction instr s) ! 0 = 0
       \<and> (\<forall>s'. execute_imm_instruction instr s = Inr s' \<longrightarrow> regs s' ! 0 = 0)
       \<and> (\<forall>s'. main_loop_body s = Inr s' \<longrightarrow>
             \<not> (drop_bit 13 (memory s ! unat (pc s AND 8191)) AND 0x7 = 2 \<and>
                (memory s ! unat (pc s AND 8191)) AND 0x1FFF = pc s) \<longrightarrow>
             regs s' ! 0 = 0)"
proof -
  from assms have pos: "0 < length (regs s)" by simp
  have body: "regs s' ! 0 = 0"
    if b: "main_loop_body s = Inr s'"
      and nj: "\<not> (drop_bit 13 (memory s ! unat (pc s AND 8191)) AND 0x7 = 2 \<and>
                (memory s ! unat (pc s AND 8191)) AND 0x1FFF = pc s)" for s'
  proof -
    let ?instr = "memory s ! unat (pc s AND 8191)"
    from opcode_cases[of "drop_bit 13 ?instr"] b nj show ?thesis
      by (auto simp: main_loop_body_def Let_def execute_instruction_reg0[OF pos]
          execute_control_instruction_reg0[OF pos] execute_imm_instruction_reg0[OF pos]
          split: if_splits)
  qed
  show ?thesis
    using execute_instruction_reg0[OF pos] execute_control_instruction_reg0[OF pos]
      execute_imm_instruction_reg0[OF pos] body
    by blast
qed

theorem register_zero_after_every_instruction_witness:
  "length (regs example_machine) = 8
   \<and> unat (drop_bit 4 (0x0480 :: 16 word) AND 0x7) = 0
   \<and> regs (execute_instruction 0x0480 example_machine) ! 0 = 0
   \<and> regs (execute_control_instruction 0x6005 example_machine) ! 0 = 0
   \<and> unat (drop_bit 7 (0x2405 :: 16 word) AND 0x7) = 0
   \<and> (\<exists>s'. execute_imm_instruction 0x2405 example_machine = Inr s' \<and> regs s' ! 0 = 0)
   \<and> (\<exists>s'. main_loop_body example_machine = Inr s' \<and> regs s' ! 0 = 0)"
proof -
  have h: "length (regs example_machine) = 8"
    by (simp add: example_machine_def)
  have d: "unat (drop_bit 4 (0x0480 :: 16 word) AND 0x7) = 0"
    "unat (drop_bit 7 (0x2405 :: 16 word) AND 0x7) = 0"
    by simp_all
  have e: "\<exists>s'. execute_imm_instruction 0x2405 example_machine = Inr s'"
    by (simp add: execute_imm_instruction_def Let_def)
  have b: "\<exists>s'. main_loop_body example_machine = Inr s'"
    by (simp add: main_loop_body_def execute_imm_instruction_def example_machine_def
        example_memory_def Let_def)
  have nj: "\<not> (drop_bit 13 (memory example_machine ! unat (pc example_machine AND 8191)) AND 0x7 = 2 \<and>
              (memory example_machine ! unat (pc example_machine AND 8191)) AND 0x1FFF
                = pc example_machine)"
    by (simp add: example_machine_def example_memory_def)
  note t1 = register_zero_after_every_instruction [OF h, of "0x0480"]
  note t2 = register_zero_after_every_instruction [OF h, of "0x6005"]
  note t3 = register_zero_after_every_instruction [OF h, of "0x2405"]
  from t1 have a1: "regs (execute_instruction 0x0480 example_machine) ! 0 = 0"
    by (rule conjunct1)
  from t2 have a2: "regs (execute_control_instruction 0x6005 example_machine) ! 0 = 0"
    by blast
  from t3 e have a3: "\<exists>s'. execute_imm_instruction 0x2405 example_machine = Inr s' \<and> regs s' ! 0 = 0"
    by blast
  from t1 b nj have a4: "\<exists>s'. main_loop_body example_machine = Inr s' \<and> regs s' ! 0 = 0"
    by blast
  show ?thesis
    by (rule conjI [OF h conjI [OF d(1) conjI [OF a1 conjI [OF a2 conjI [OF d(2) conjI [OF a3 a4]]]]]])
qed

subsection \<open>C8: the halting jump\<close>

text \<open>
  C8: when the fetched instruction is a jump (opcode 010) whose 13-bit immediate equals
  the current pc, the loop body only sets the halt flag, and the loop returns that state:
  no further instruction executes, and pc, registers, memory, caches and output are those
  of the state before.
\<close>

theorem self_jump_halts:
  assumes "\<not> isHalt s"
    and "drop_bit 13 (memory s ! unat (pc s AND 8191)) AND 0x7 = 2"
    and "(memory s ! unat (pc s AND 8191)) AND 0x1FFF = pc s"
  shows "main_loop_body s = Inr (s\<lparr>isHalt := True\<rparr>)
       \<and> main_loop s = Some (Inr (s\<lparr>isHalt := True\<rparr>))"
proof -
  from assms(2,3) have b: "main_loop_body s = Inr (s\<lparr>isHalt := True\<rparr>)"
    by (simp add: main_loop_body_def Let_def)
  have "main_loop s = main_loop (s\<lparr>isHalt := True\<rparr>)"
    using assms(1) b by (subst main_loop.simps) simp
  also have "\<dots> = Some (Inr (s\<lparr>isHalt := True\<rparr>))"
    by (subst main_loop.simps) simp
  finally show ?thesis using b by simp
qed

theorem self_jump_halts_witness:
  "\<not> isHalt (example_machine\<lparr>pc := 3\<rparr>)
   \<and> memory (example_machine\<lparr>pc := 3\<rparr>) ! unat (pc (example_machine\<lparr>pc := 3\<rparr>) AND 8191) = 0x4003
   \<and> drop_bit 13 (0x4003 :: 16 word) AND 0x7 = 2
   \<and> (0x4003 :: 16 word) AND 0x1FFF = 3
   \<and> main_loop (example_machine\<lparr>pc := 3\<rparr>) = Some (Inr (example_machine\<lparr>pc := 3, isHalt := True\<rparr>))"
proof -
  have h: "\<not> isHalt (example_machine\<lparr>pc := 3\<rparr>)"
    "drop_bit 13 (memory (example_machine\<lparr>pc := 3\<rparr>)
        ! unat (pc (example_machine\<lparr>pc := 3\<rparr>) AND 8191)) AND 0x7 = 2"
    "(memory (example_machine\<lparr>pc := 3\<rparr>)
        ! unat (pc (example_machine\<lparr>pc := 3\<rparr>) AND 8191)) AND 0x1FFF
      = pc (example_machine\<lparr>pc := 3\<rparr>)"
    by (simp_all add: example_machine_def example_memory_def)
  show ?thesis
    using h self_jump_halts [OF h]
    by (simp add: example_machine_def example_memory_def)
qed

subsection \<open>C7: store-word\<close>

text \<open>
  C7: every executed store-word writes the source register's value to backing memory at
  (base register + sign-extended immediate) mod 2^13, and calls \<^verbatim>\<open>storeWord\<close> on L1
  and, when an L2 is configured, on L2 as well, with the same address; nothing tests a
  hit or miss before any of the three writes. The caches are reachable ones, on which
  \<^verbatim>\<open>storeWord\<close> always returns.
\<close>

theorem store_word_writes_through:
  assumes l1: "reachable (l1Cache s)"
    and l2: "\<forall>l2. l2Cache s = Some l2 \<longrightarrow> reachable l2"
    and mem: "length (memory s) = 8192"
    and op: "drop_bit 13 instr AND 0x7 = 5"
    and addr: "addr = (regs s ! unat (drop_bit 10 instr AND 0x7)
                        + (if (instr AND 0x7F) AND 0x40 \<noteq> 0 then (instr AND 0x7F) OR 0xFF80
                           else instr AND 0x7F)) AND 0x1FFF"
  shows "uint addr = (uint (regs s ! unat (drop_bit 10 instr AND 0x7))
                       + (if uint (instr AND 0x7F) < 64 then uint (instr AND 0x7F)
                          else uint (instr AND 0x7F) - 128)) mod 2 ^ 13
       \<and> (\<exists>s' l1'.
             execute_imm_instruction instr s = Inr s'
           \<and> memory s' = (memory s)[unat addr := regs s ! unat (drop_bit 7 instr AND 0x7)]
           \<and> memory s' ! unat addr = regs s ! unat (drop_bit 7 instr AND 0x7)
           \<and> storeWord (l1Cache s) addr = Inr (row_of (l1Cache s) addr, l1')
           \<and> l1Cache s' = l1'
           \<and> (case l2Cache s of
                 None \<Rightarrow>
                   l2Cache s' = None
                 \<and> out s' = out s @ [LogEntry ''L1'' ''SW'' (uint (pc s)) (uint addr)
                                        (row_of (l1Cache s) addr)]
               | Some c2 \<Rightarrow>
                   (\<exists>l2'. storeWord c2 addr = Inr (row_of c2 addr, l2')
                        \<and> l2Cache s' = Some l2'
                        \<and> out s' = out s @ [LogEntry ''L1'' ''SW'' (uint (pc s)) (uint addr)
                                               (row_of (l1Cache s) addr),
                                             LogEntry ''L2'' ''SW'' (uint (pc s)) (uint addr)
                                               (row_of c2 addr)])))"
proof (rule conjI)
  show "uint addr = (uint (regs s ! unat (drop_bit 10 instr AND 0x7))
                       + (if uint (instr AND 0x7F) < 64 then uint (instr AND 0x7F)
                          else uint (instr AND 0x7F) - 128)) mod 2 ^ 13"
    unfolding addr by (rule effective_address)
next
  have lt: "unat addr < 8192" unfolding addr by (rule addr_lt)
  from storeWord_wf_total[OF reachable_wf[OF l1], of addr]
  obtain l1' where s1: "storeWord (l1Cache s) addr = Inr (row_of (l1Cache s) addr, l1')"
    by blast
  show "\<exists>s' l1'.
             execute_imm_instruction instr s = Inr s'
           \<and> memory s' = (memory s)[unat addr := regs s ! unat (drop_bit 7 instr AND 0x7)]
           \<and> memory s' ! unat addr = regs s ! unat (drop_bit 7 instr AND 0x7)
           \<and> storeWord (l1Cache s) addr = Inr (row_of (l1Cache s) addr, l1')
           \<and> l1Cache s' = l1'
           \<and> (case l2Cache s of
                 None \<Rightarrow>
                   l2Cache s' = None
                 \<and> out s' = out s @ [LogEntry ''L1'' ''SW'' (uint (pc s)) (uint addr)
                                        (row_of (l1Cache s) addr)]
               | Some c2 \<Rightarrow>
                   (\<exists>l2'. storeWord c2 addr = Inr (row_of c2 addr, l2')
                        \<and> l2Cache s' = Some l2'
                        \<and> out s' = out s @ [LogEntry ''L1'' ''SW'' (uint (pc s)) (uint addr)
                                               (row_of (l1Cache s) addr),
                                             LogEntry ''L2'' ''SW'' (uint (pc s)) (uint addr)
                                               (row_of c2 addr)]))"
  proof (cases "l2Cache s")
    case None
    with s1 lt mem op show ?thesis
      by (simp add: execute_imm_instruction_def Let_def addr[symmetric] print_log_entry_def)
  next
    case (Some c2)
    with l2 have "reachable c2" by simp
    from storeWord_wf_total[OF reachable_wf[OF this], of addr]
    obtain l2' where s2: "storeWord c2 addr = Inr (row_of c2 addr, l2')"
      by blast
    with Some s1 lt mem op show ?thesis
      by (simp add: execute_imm_instruction_def Let_def addr[symmetric] print_log_entry_def)
  qed
qed

theorem store_word_writes_through_witness:
  "reachable (l1Cache (example_machine\<lparr>l2Cache := Some example_l2\<rparr>))
   \<and> l2Cache (example_machine\<lparr>l2Cache := Some example_l2\<rparr>) = Some example_l2
   \<and> reachable example_l2
   \<and> length (memory (example_machine\<lparr>l2Cache := Some example_l2\<rparr>)) = 8192
   \<and> drop_bit 13 (0xA0B2 :: 16 word) AND 0x7 = 5
   \<and> (uint (50 :: 16 word) = (uint (regs (example_machine\<lparr>l2Cache := Some example_l2\<rparr>) ! unat (drop_bit 10 (0xA0B2 :: 16 word) AND 0x7))
                       + (if uint ((0xA0B2 :: 16 word) AND 0x7F) < 64 then uint ((0xA0B2 :: 16 word) AND 0x7F)
                          else uint ((0xA0B2 :: 16 word) AND 0x7F) - 128)) mod 2 ^ 13
       \<and> (\<exists>s' l1'.
             execute_imm_instruction (0xA0B2 :: 16 word) (example_machine\<lparr>l2Cache := Some example_l2\<rparr>) = Inr s'
           \<and> memory s' = (memory (example_machine\<lparr>l2Cache := Some example_l2\<rparr>))[unat (50 :: 16 word) := regs (example_machine\<lparr>l2Cache := Some example_l2\<rparr>) ! unat (drop_bit 7 (0xA0B2 :: 16 word) AND 0x7)]
           \<and> memory s' ! unat (50 :: 16 word) = regs (example_machine\<lparr>l2Cache := Some example_l2\<rparr>) ! unat (drop_bit 7 (0xA0B2 :: 16 word) AND 0x7)
           \<and> storeWord (l1Cache (example_machine\<lparr>l2Cache := Some example_l2\<rparr>)) (50 :: 16 word) = Inr (row_of (l1Cache (example_machine\<lparr>l2Cache := Some example_l2\<rparr>)) (50 :: 16 word), l1')
           \<and> l1Cache s' = l1'
           \<and> (case l2Cache (example_machine\<lparr>l2Cache := Some example_l2\<rparr>) of
                 None \<Rightarrow>
                   l2Cache s' = None
                 \<and> out s' = out (example_machine\<lparr>l2Cache := Some example_l2\<rparr>) @ [LogEntry ''L1'' ''SW'' (uint (pc (example_machine\<lparr>l2Cache := Some example_l2\<rparr>))) (uint (50 :: 16 word))
                                        (row_of (l1Cache (example_machine\<lparr>l2Cache := Some example_l2\<rparr>)) (50 :: 16 word))]
               | Some c2 \<Rightarrow>
                   (\<exists>l2'. storeWord c2 (50 :: 16 word) = Inr (row_of c2 (50 :: 16 word), l2')
                        \<and> l2Cache s' = Some l2'
                        \<and> out s' = out (example_machine\<lparr>l2Cache := Some example_l2\<rparr>) @ [LogEntry ''L1'' ''SW'' (uint (pc (example_machine\<lparr>l2Cache := Some example_l2\<rparr>))) (uint (50 :: 16 word))
                                               (row_of (l1Cache (example_machine\<lparr>l2Cache := Some example_l2\<rparr>)) (50 :: 16 word)),
                                             LogEntry ''L2'' ''SW'' (uint (pc (example_machine\<lparr>l2Cache := Some example_l2\<rparr>))) (uint (50 :: 16 word))
                                               (row_of c2 (50 :: 16 word))]))))"
proof -
  have h: "reachable (l1Cache (example_machine\<lparr>l2Cache := Some example_l2\<rparr>))"
    "\<forall>l2. l2Cache (example_machine\<lparr>l2Cache := Some example_l2\<rparr>) = Some l2 \<longrightarrow> reachable l2"
    "length (memory (example_machine\<lparr>l2Cache := Some example_l2\<rparr>)) = 8192"
    "drop_bit 13 (0xA0B2 :: 16 word) AND 0x7 = 5"
    "(50 :: 16 word) = (regs (example_machine\<lparr>l2Cache := Some example_l2\<rparr>) ! unat (drop_bit 10 (0xA0B2 :: 16 word) AND 0x7)
                        + (if ((0xA0B2 :: 16 word) AND 0x7F) AND 0x40 \<noteq> 0 then ((0xA0B2 :: 16 word) AND 0x7F) OR 0xFF80
                           else (0xA0B2 :: 16 word) AND 0x7F)) AND 0x1FFF"
    by (simp_all add: example_machine_def example_memory_def reachable_examples)
  have l2: "l2Cache (example_machine\<lparr>l2Cache := Some example_l2\<rparr>) = Some example_l2"
    by simp
  show ?thesis
    by (rule conjI [OF h(1) conjI [OF l2 conjI [OF reachable_examples(2) conjI [OF h(3)
          conjI [OF h(4) store_word_writes_through [OF h]]]]]])
qed

subsection \<open>C6: load-word with two levels\<close>

text \<open>
  C6: for every executed load-word with an L2 configured, \<^verbatim>\<open>loadWord\<close> is called on
  L1 with the effective address. On a hit (result 1) L2 is left as it was and one line is
  printed; on a miss \<^verbatim>\<open>loadWord\<close> is called on L2 with the same address, which L2
  decodes with its own block size and row count, and two lines are printed: L1 MISS, then
  the L2 outcome.
\<close>

theorem load_word_two_level:
  assumes l1: "reachable (l1Cache s)"
    and l2: "l2Cache s = Some c2" "reachable c2"
    and op: "drop_bit 13 instr AND 0x7 = 4"
    and addr: "addr = (regs s ! unat (drop_bit 10 instr AND 0x7)
                        + (if (instr AND 0x7F) AND 0x40 \<noteq> 0 then (instr AND 0x7F) OR 0xFF80
                           else instr AND 0x7F)) AND 0x1FFF"
  shows "\<exists>r1 l1' s'.
           loadWord (l1Cache s) addr = Inr (r1, row_of (l1Cache s) addr, l1')
         \<and> (r1 = 0 \<or> r1 = 1)
         \<and> execute_imm_instruction instr s = Inr s'
         \<and> l1Cache s' = l1'
         \<and> (if r1 = 1 then
                l2Cache s' = Some c2
              \<and> out s' = out s @ [LogEntry ''L1'' ''HIT'' (uint (pc s)) (uint addr)
                                     (row_of (l1Cache s) addr)]
             else
               (\<exists>r2 l2'.
                  loadWord c2 addr = Inr (r2, row_of c2 addr, l2')
                \<and> l2Cache s' = Some l2'
                \<and> out s' = out s @ [LogEntry ''L1'' ''MISS'' (uint (pc s)) (uint addr)
                                       (row_of (l1Cache s) addr),
                                     LogEntry ''L2'' (if r2 = 1 then ''HIT'' else ''MISS'')
                                       (uint (pc s)) (uint addr) (row_of c2 addr)]))"
proof -
  from loadWord_wf_total[OF reachable_wf[OF l1], of addr]
  obtain r1 l1' where s1: "loadWord (l1Cache s) addr = Inr (r1, row_of (l1Cache s) addr, l1')"
    and r1: "r1 = 0 \<or> r1 = 1"
    by blast
  from loadWord_wf_total[OF reachable_wf[OF l2(2)], of addr]
  obtain r2 l2' where s2: "loadWord c2 addr = Inr (r2, row_of c2 addr, l2')"
    and r2: "r2 = 0 \<or> r2 = 1"
    by blast
  from r1 show ?thesis
  proof
    assume "r1 = 1"
    with s1 l2 op show ?thesis
      by (simp add: execute_imm_instruction_def Let_def addr[symmetric] print_log_entry_def)
  next
    assume "r1 = 0"
    with s1 s2 r2 l2 op show ?thesis
      by (auto simp: execute_imm_instruction_def Let_def addr[symmetric] print_log_entry_def)
  qed
qed

theorem load_word_two_level_witness:
  "reachable (l1Cache (example_machine\<lparr>l2Cache := Some example_l2\<rparr>))
   \<and> l2Cache (example_machine\<lparr>l2Cache := Some example_l2\<rparr>) = Some example_l2
   \<and> reachable example_l2
   \<and> drop_bit 13 (0x81B2 :: 16 word) AND 0x7 = 4
   \<and> (\<exists>r1 l1' s'.
           loadWord (l1Cache (example_machine\<lparr>l2Cache := Some example_l2\<rparr>)) (50 :: 16 word) = Inr (r1, row_of (l1Cache (example_machine\<lparr>l2Cache := Some example_l2\<rparr>)) (50 :: 16 word), l1')
         \<and> (r1 = 0 \<or> r1 = 1)
         \<and> execute_imm_instruction (0x81B2 :: 16 word) (example_machine\<lparr>l2Cache := Some example_l2\<rparr>) = Inr s'
         \<and> l1Cache s' = l1'
         \<and> (if r1 = 1 then
                l2Cache s' = Some example_l2
              \<and> out s' = out (example_machine\<lparr>l2Cache := Some example_l2\<rparr>) @ [LogEntry ''L1'' ''HIT'' (uint (pc (example_machine\<lparr>l2Cache := Some example_l2\<rparr>))) (uint (50 :: 16 word))
                                     (row_of (l1Cache (example_machine\<lparr>l2Cache := Some example_l2\<rparr>)) (50 :: 16 word))]
             else
               (\<exists>r2 l2'.
                  loadWord example_l2 (50 :: 16 word) = Inr (r2, row_of example_l2 (50 :: 16 word), l2')
                \<and> l2Cache s' = Some l2'
                \<and> out s' = out (example_machine\<lparr>l2Cache := Some example_l2\<rparr>) @ [LogEntry ''L1'' ''MISS'' (uint (pc (example_machine\<lparr>l2Cache := Some example_l2\<rparr>))) (uint (50 :: 16 word))
                                       (row_of (l1Cache (example_machine\<lparr>l2Cache := Some example_l2\<rparr>)) (50 :: 16 word)),
                                     LogEntry ''L2'' (if r2 = 1 then ''HIT'' else ''MISS'')
                                       (uint (pc (example_machine\<lparr>l2Cache := Some example_l2\<rparr>))) (uint (50 :: 16 word)) (row_of example_l2 (50 :: 16 word))])))"
proof -
  have h: "reachable (l1Cache (example_machine\<lparr>l2Cache := Some example_l2\<rparr>))"
    "l2Cache (example_machine\<lparr>l2Cache := Some example_l2\<rparr>) = Some example_l2"
    "reachable example_l2"
    "drop_bit 13 (0x81B2 :: 16 word) AND 0x7 = 4"
    "(50 :: 16 word) = (regs (example_machine\<lparr>l2Cache := Some example_l2\<rparr>) ! unat (drop_bit 10 (0x81B2 :: 16 word) AND 0x7)
                        + (if ((0x81B2 :: 16 word) AND 0x7F) AND 0x40 \<noteq> 0 then ((0x81B2 :: 16 word) AND 0x7F) OR 0xFF80
                           else (0x81B2 :: 16 word) AND 0x7F)) AND 0x1FFF"
    by (simp_all add: example_machine_def reachable_examples)
  show ?thesis
    by (rule conjI [OF h(1) conjI [OF h(2) conjI [OF h(3) conjI [OF h(4) load_word_two_level [OF h]]]]])
qed

subsection \<open>C4: the line that storeWord installs\<close>




subsection \<open>C1: load-word after store-word\<close>

text \<open>
  C1 says that after every executed load-word the destination register holds the word of
  backing memory at the effective address, and that a store-word followed by a load-word
  of the same address logs L1 SW, then L1 HIT on the same row, and leaves the stored value
  in the load's destination register. The code copies \<^verbatim>\<open>memory[loadAddr]\<close> into the
  register only under \<^verbatim>\<open>if (!hit)\<close>, and no cache line holds data, so a load that hits
  loads nothing. The example program run with \<^verbatim>\<open>--cache 4,1,1\<close>: the two lines are
  logged as C1 says, memory cell 50 holds 42, and register 3 still holds 0.
\<close>

theorem store_then_load_leaves_register_stale:
  "main_cache [4, 1, 1] example_memory =
     Some (Inr \<lparr>pc = 3, regs = [0, 42, 0, 0, 0, 0, 0, 0],
                memory = example_memory[50 := 42],
                l1Cache =
                  \<lparr>rows = [\<lparr>blocks = [\<lparr>valid = False, tag = 0, lru = 0\<rparr>]\<rparr>,
                           \<lparr>blocks = [\<lparr>valid = False, tag = 0, lru = 0\<rparr>]\<rparr>,
                           \<lparr>blocks = [\<lparr>valid = True, tag = 12, lru = 0\<rparr>]\<rparr>,
                           \<lparr>blocks = [\<lparr>valid = False, tag = 0, lru = 0\<rparr>]\<rparr>],
                   cacheSize = 4, associativity = 1, blocksize = 1, numRows = 4\<rparr>,
                l2Cache = None, isHalt = True,
                out = [CacheConfig ''L1'' 4 1 1 4,
                       LogEntry ''L1'' ''SW'' 1 50 2,
                       LogEntry ''L1'' ''HIT'' 2 50 2]\<rparr>)
   \<and> example_memory[50 := 42] ! 50 = (42 :: 16 word)
   \<and> [0, 42, 0, 0, 0, 0, 0, 0] ! 3 \<noteq> (42 :: 16 word)"
  by code_simp

subsection \<open>C3: recency counters on a hit\<close>

text \<open>
  C3 says that a \<^verbatim>\<open>loadWord\<close> increments every recency counter of the addressed row
  exactly once, so that after a hit every other line is older by exactly 1. In the code
  the scan has already aged the lines before the matching one when the hit branch ages
  every other line again. On a two-way row, loading addresses 0, 1 and 1: the third load
  hits line 1, and the counter of line 0 goes from 1 to 3.
\<close>

theorem loadWord_hit_ages_earlier_line_twice:
  "loadWord example_two_way 0 =
     Inr (0, 0, \<lparr>rows = [\<lparr>blocks = [\<lparr>valid = True, tag = 0, lru = 0\<rparr>,
                                      \<lparr>valid = False, tag = 0, lru = 1\<rparr>]\<rparr>],
                  cacheSize = 2, associativity = 2, blocksize = 1, numRows = 1\<rparr>)
   \<and> loadWord \<lparr>rows = [\<lparr>blocks = [\<lparr>valid = True, tag = 0, lru = 0\<rparr>,
                                     \<lparr>valid = False, tag = 0, lru = 1\<rparr>]\<rparr>],
                 cacheSize = 2, associativity = 2, blocksize = 1, numRows = 1\<rparr> 1 =
     Inr (0, 0, \<lparr>rows = [\<lparr>blocks = [\<lparr>valid = True, tag = 0, lru = 1\<rparr>,
                                      \<lparr>valid = True, tag = 1, lru = 0\<rparr>]\<rparr>],
                  cacheSize = 2, associativity = 2, blocksize = 1, numRows = 1\<rparr>)
   \<and> loadWord \<lparr>rows = [\<lparr>blocks = [\<lparr>valid = True, tag = 0, lru = 1\<rparr>,
                                     \<lparr>valid = True, tag = 1, lru = 0\<rparr>]\<rparr>],
                 cacheSize = 2, associativity = 2, blocksize = 1, numRows = 1\<rparr> 1 =
     Inr (1, 0, \<lparr>rows = [\<lparr>blocks = [\<lparr>valid = True, tag = 0, lru = 3\<rparr>,
                                      \<lparr>valid = True, tag = 1, lru = 0\<rparr>]\<rparr>],
                  cacheSize = 2, associativity = 2, blocksize = 1, numRows = 1\<rparr>)"
  by code_simp

subsection \<open>C5: the row count is not checked\<close>

text \<open>
  C5, as stated, makes a row count that is zero or not integral a fatal configuration
  error reported before any instruction executes. The constructor divides and truncates
  with no check, and \<^verbatim>\<open>main\<close> tests only the number of integers. With
  \<^verbatim>\<open>--cache 10,2,4\<close> (10 is not a multiple of 8) the example program runs to its halt
  with one row and reports no error.
\<close>

theorem inexact_row_count_counterexample:
  "main_cache [10, 2, 4] example_memory =
     Some (Inr \<lparr>pc = 3, regs = [0, 42, 0, 0, 0, 0, 0, 0],
                memory = example_memory[50 := 42],
                l1Cache =
                  \<lparr>rows = [\<lparr>blocks = [\<lparr>valid = False, tag = 0, lru = 3\<rparr>,
                                      \<lparr>valid = True, tag = 12, lru = 0\<rparr>]\<rparr>],
                   cacheSize = 10, associativity = 2, blocksize = 4, numRows = 1\<rparr>,
                l2Cache = None, isHalt = True,
                out = [CacheConfig ''L1'' 10 2 4 1,
                       LogEntry ''L1'' ''SW'' 1 50 0,
                       LogEntry ''L1'' ''HIT'' 2 50 0]\<rparr>)
   \<and> (10 :: int) mod (2 * 4) \<noteq> 0"
  by code_simp

text \<open>
  C5 (amended): a cache configuration triple with positive associativity and block size
  whose size is at least associativity * blocksize (all 32-bit values) is accepted whether
  or not the division is exact: the constructor builds the cache with the truncated
  quotient size / (associativity * blocksize), which is at least 1, as its row count, the
  simulation loop starts on it, and the run ends in no error. A row count of zero is
  outside this statement.
\<close>

theorem truncated_row_count_is_accepted:
  assumes "0 < assoc" and "0 < bsize" and "assoc * bsize \<le> sz" and "sz < 2 ^ 31"
  shows "Cache_init sz assoc bsize =
           Inr \<lparr>rows = replicate (nat (sz div (assoc * bsize)))
                         \<lparr>blocks = replicate (nat assoc) \<lparr>valid = False, tag = 0, lru = 0\<rparr>\<rparr>,
                cacheSize = sz, associativity = assoc, blocksize = bsize,
                numRows = sz div (assoc * bsize)\<rparr>
       \<and> 1 \<le> sz div (assoc * bsize)
       \<and> main_cache [sz, assoc, bsize] mem =
           main_loop (initial_machine
             \<lparr>rows = replicate (nat (sz div (assoc * bsize)))
                         \<lparr>blocks = replicate (nat assoc) \<lparr>valid = False, tag = 0, lru = 0\<rparr>\<rparr>,
              cacheSize = sz, associativity = assoc, blocksize = bsize,
              numRows = sz div (assoc * bsize)\<rparr>
             None mem [CacheConfig ''L1'' sz assoc bsize (sz div (assoc * bsize))])
       \<and> (\<forall>e. main_cache [sz, assoc, bsize] mem \<noteq> Some (Inl e))"
proof -
  let ?c = "\<lparr>rows = replicate (nat (sz div (assoc * bsize)))
                         \<lparr>blocks = replicate (nat assoc) \<lparr>valid = False, tag = 0, lru = 0\<rparr>\<rparr>,
              cacheSize = sz, associativity = assoc, blocksize = bsize,
              numRows = sz div (assoc * bsize)\<rparr>"
  let ?s = "initial_machine ?c None mem [CacheConfig ''L1'' sz assoc bsize (sz div (assoc * bsize))]"
  note c = Cache_init_wf(1)[OF assms]
  from Cache_init_wf(2)[OF assms c] have wf: "wf_cache ?c" .
  then have n: "1 \<le> sz div (assoc * bsize)" by (simp add: wf_cache_def)
  have m: "main_cache [sz, assoc, bsize] mem = main_loop ?s"
    by (simp add: main_cache_def c print_cache_config_def)
  have "main_loop ?s \<noteq> Some (Inl e)" for e
  proof
    assume "main_loop ?s = Some (Inl e)"
    from main_loop_no_error[OF this] wf show False
      by (simp add: initial_machine_def)
  qed
  with c n m show ?thesis by simp
qed

theorem truncated_row_count_is_accepted_witness:
  "(0 :: int) < 2 \<and> (0 :: int) < 4 \<and> (2 :: int) * 4 \<le> 10 \<and> (10 :: int) < 2 ^ 31
   \<and> (10 :: int) mod (2 * 4) \<noteq> 0
   \<and> Cache_init 10 2 4 =
        Inr \<lparr>rows = [\<lparr>blocks = [\<lparr>valid = False, tag = 0, lru = 0\<rparr>,
                                  \<lparr>valid = False, tag = 0, lru = 0\<rparr>]\<rparr>],
             cacheSize = 10, associativity = 2, blocksize = 4, numRows = 1\<rparr>
   \<and> (\<forall>e. main_cache [10, 2, 4] example_memory \<noteq> Some (Inl e))"
proof -
  have h: "(0 :: int) < 2" "(0 :: int) < 4" "(2 :: int) * 4 \<le> 10" "(10 :: int) < 2 ^ 31"
    by simp_all
  note t = truncated_row_count_is_accepted [OF h, of example_memory]
  from t have a: "Cache_init 10 2 4 =
        Inr \<lparr>rows = [\<lparr>blocks = [\<lparr>valid = False, tag = 0, lru = 0\<rparr>,
                                  \<lparr>valid = False, tag = 0, lru = 0\<rparr>]\<rparr>],
             cacheSize = 10, associativity = 2, blocksize = 4, numRows = 1\<rparr>"
    by (simp add: numeral_2_eq_2)
  from t have b: "\<forall>e. main_cache [10, 2, 4] example_memory \<noteq> Some (Inl e)"
    by blast
  have r: "(10 :: int) mod (2 * 4) \<noteq> 0"
    by simp
  show ?thesis
    by (rule conjI [OF h(1) conjI [OF h(2) conjI [OF h(3) conjI [OF h(4) conjI [OF r conjI [OF a b]]]]]])
qed

end
